theory Spec2Isabelle
  imports Main "HOL-Library.Word"
begin

section \<open>JavaScript strings\<close>

text \<open>
  A JavaScript string is a sequence of 16-bit code units. \<open>split\<close>, \<open>includes\<close>,
  \<open>trim\<close> and \<open>join\<close> all work on code units, so the model does too. ASCII literals
  of the source are written with \<open>lit\<close>; the two emoji prefixes of the transcript lines
  are written out as their UTF-16 code units.
\<close>

type_synonym unit16 = "16 word"
type_synonym jsstring = "unit16 list"

definition lit :: "string \<Rightarrow> jsstring" where
  "lit s = map of_char s"

definition LF :: unit16 where
  "LF = 0xA"

text \<open>
  \<open>String.prototype.trim\<close> strips WhiteSpace and LineTerminator code points from both
  ends. All of them lie in the Basic Multilingual Plane, so each is one code unit.
\<close>

definition isWhiteSpace :: "unit16 \<Rightarrow> bool" where
  "isWhiteSpace c \<longleftrightarrow>
     c \<in> set [0x9, 0xA, 0xB, 0xC, 0xD, 0x20, 0xA0, 0x1680,
              0x2000, 0x2001, 0x2002, 0x2003, 0x2004, 0x2005, 0x2006, 0x2007, 0x2008,
              0x2009, 0x200A, 0x2028, 0x2029, 0x202F, 0x205F, 0x3000, 0xFEFF]"

definition trim :: "jsstring \<Rightarrow> jsstring" where
  "trim s = rev (dropWhile isWhiteSpace (rev (dropWhile isWhiteSpace s)))"

text \<open>
  \<open>s.split(sep)\<close> for a one-unit separator: a left-to-right scan that closes the current
  piece at every separator. The empty string splits into one empty piece.
\<close>

fun split_from :: "unit16 \<Rightarrow> jsstring \<Rightarrow> jsstring \<Rightarrow> jsstring list" where
  "split_from sep cur [] = [cur]"
| "split_from sep cur (c # cs) =
     (if c = sep then cur # split_from sep [] cs else split_from sep (cur @ [c]) cs)"

definition split :: "unit16 \<Rightarrow> jsstring \<Rightarrow> jsstring list" where
  "split sep s = split_from sep [] s"

fun startsWith :: "jsstring \<Rightarrow> jsstring \<Rightarrow> bool" where
  "startsWith s [] = True"
| "startsWith [] (p # ps) = False"
| "startsWith (c # cs) (p # ps) = (c = p \<and> startsWith cs ps)"

text \<open>\<open>s.includes(sub)\<close>: \<open>sub\<close> occurs in \<open>s\<close> at some position.\<close>

fun str_includes :: "jsstring \<Rightarrow> jsstring \<Rightarrow> bool" where
  "str_includes [] sub = (sub = [])"
| "str_includes (c # cs) sub = (startsWith (c # cs) sub \<or> str_includes cs sub)"

text \<open>\<open>lines.join(sep)\<close> on an array of strings.\<close>

fun join :: "jsstring \<Rightarrow> jsstring list \<Rightarrow> jsstring" where
  "join sep [] = []"
| "join sep [l] = l"
| "join sep (l # m # ls) = l @ sep @ join sep (m # ls)"

section \<open>The transcript cleaner\<close>

definition sentinel :: jsstring where
  "sentinel = lit ''Agent: Agent message not found''"

text \<open>
  \<^verbatim>\<open>
  function cleanTranscript(transcript) {
    return transcript
      .split("\n")
      .filter((line) => !line.includes("Agent: Agent message not found"))
      .filter((line) => line.trim() !== "")
      .join("\n\n");
  }
  \<close>
\<close>

definition cleanTranscript :: "jsstring \<Rightarrow> jsstring" where
  "cleanTranscript transcript =
     join [LF, LF]
       (filter (\<lambda>line. trim line \<noteq> [])
         (filter (\<lambda>line. \<not> str_includes line sentinel)
           (split LF transcript)))"

text \<open>The lines \<open>cleanTranscript\<close> lets through: both filters at once.\<close>

definition kept :: "jsstring \<Rightarrow> bool" where
  "kept line \<longleftrightarrow> \<not> str_includes line sentinel \<and> trim line \<noteq> []"

text \<open>
  The removal rule in the words of the specification: a line goes when it is equal to
  the sentinel or empty after trimming. It is compared with \<open>kept\<close> below.
\<close>

definition spec_removed :: "jsstring \<Rightarrow> bool" where
  "spec_removed line \<longleftrightarrow> line = sentinel \<or> trim line = []"

text \<open>The non-empty lines of a text: what remains visible of a cleaned transcript.\<close>

definition text_lines :: "jsstring \<Rightarrow> jsstring list" where
  "text_lines t = filter (\<lambda>line. line \<noteq> []) (split LF t)"

text \<open>The line the server writes for an agent message \<open>m\<close> (see the upstream handler).\<close>

definition agent_prefix :: jsstring where
  "agent_prefix = [0xD83C, 0xDF99, 0xFE0F] @ lit '' Agent: ''"

definition user_prefix :: jsstring where
  "user_prefix = [0xD83D, 0xDC68, 0x200D, 0xD83D, 0xDCBC] @ lit '' User: ''"

section \<open>JavaScript values\<close>

text \<open>
  The values the handlers see are results of \<open>JSON.parse\<close> and of property reads on
  them. A number is kept as its decimal rendering: the program never computes with one,
  it only copies numbers and interpolates them into strings. An object is the list of its
  own properties, one entry per key.
\<close>

datatype jsval =
    JUndefined
  | JNull
  | JBool bool
  | JNum jsstring
  | JStr jsstring
  | JArr "jsval list"
  | JObj "(jsstring \<times> jsval) list"

datatype error = SyntaxError | TypeError

text \<open>
  A property read \<open>v.k\<close>. Reading a property of \<open>undefined\<close> or \<open>null\<close> throws a
  TypeError; a missing property reads as \<open>undefined\<close>. None of the keys the program
  reads (\<open>event\<close>, \<open>media\<close>, \<open>payload\<close>, \<open>start\<close>, \<open>streamSid\<close>, \<open>type\<close>,
  \<open>text\<close>, \<open>chunk\<close>, \<open>message\<close>, \<open>From\<close>, \<open>CallSid\<close>) is a built-in property
  of strings, numbers, booleans, arrays or plain objects, so on those only own
  properties count.
\<close>

fun get_prop :: "jsval \<Rightarrow> jsstring \<Rightarrow> error + jsval" where
  "get_prop JUndefined k = Inl TypeError"
| "get_prop JNull k = Inl TypeError"
| "get_prop (JObj kvs) k = Inr (case map_of kvs k of None \<Rightarrow> JUndefined | Some v \<Rightarrow> v)"
| "get_prop v k = Inr JUndefined"

text \<open>What \<open>||\<close> and \<open>if\<close> test.\<close>

fun truthy :: "jsval \<Rightarrow> bool" where
  "truthy JUndefined = False"
| "truthy JNull = False"
| "truthy (JBool b) = b"
| "truthy (JNum n) = (n \<noteq> lit ''0'' \<and> n \<noteq> lit ''NaN'')"
| "truthy (JStr s) = (s \<noteq> [])"
| "truthy (JArr vs) = True"
| "truthy (JObj kvs) = True"

text \<open>
  The string a template literal interpolates for a value: \<open>ToString\<close>. An array joins
  its elements with commas, \<open>undefined\<close> and \<open>null\<close> elements rendering as nothing.
  A plain object renders as \<open>[object Object]\<close> through the inherited \<open>toString\<close>;
  when the object has an own property \<open>toString\<close>, that property (a parsed value, so
  not a function) hides the inherited method, the inherited \<open>valueOf\<close> returns the
  object itself, and the conversion throws a TypeError.
\<close>

fun to_string :: "jsval \<Rightarrow> error + jsstring" where
  "to_string JUndefined = Inr (lit ''undefined'')"
| "to_string JNull = Inr (lit ''null'')"
| "to_string (JBool b) = Inr (if b then lit ''true'' else lit ''false'')"
| "to_string (JNum n) = Inr n"
| "to_string (JStr s) = Inr s"
| "to_string (JArr vs) =
     (if list_ex (\<lambda>v. v \<noteq> JUndefined \<and> v \<noteq> JNull \<and> isl (to_string v)) vs
      then Inl TypeError
      else Inr (join (lit '','')
             (map (\<lambda>v. if v = JUndefined \<or> v = JNull then [] else projr (to_string v)) vs)))"
| "to_string (JObj kvs) =
     (if map_of kvs (lit ''toString'') = None then Inr (lit ''[object Object]'')
      else Inl TypeError)"

text \<open>
  A message goes on the wire as \<open>JSON.stringify(v)\<close>. The model identifies the JSON
  text with the value it denotes: a property whose value is \<open>undefined\<close> is left out of
  an object, and an \<open>undefined\<close> array element is written as \<open>null\<close>.
\<close>

fun stringify :: "jsval \<Rightarrow> jsval" where
  "stringify (JObj kvs) =
     JObj (map (\<lambda>(k, v). (k, stringify v)) (filter (\<lambda>(k, v). v \<noteq> JUndefined) kvs))"
| "stringify (JArr vs) = JArr (map (\<lambda>v. if v = JUndefined then JNull else stringify v) vs)"
| "stringify v = v"

text \<open>
  The values \<open>JSON.parse\<close> returns: \<open>undefined\<close> occurs nowhere in them, and
  serialising one gives it back.
\<close>

fun is_json :: "jsval \<Rightarrow> bool" where
  "is_json JUndefined = False"
| "is_json (JArr vs) = list_all is_json vs"
| "is_json (JObj kvs) = list_all (\<lambda>kv. is_json (snd kv)) kvs"
| "is_json v = True"

text \<open>The method call \<open>v.trim()\<close>: only a string has the method.\<close>

fun call_trim :: "jsval \<Rightarrow> error + jsstring" where
  "call_trim (JStr s) = Inr (trim s)"
| "call_trim v = Inl TypeError"

text \<open>Sequencing of steps that may throw.\<close>

definition bind_err :: "error + 'a \<Rightarrow> ('a \<Rightarrow> error + 'b) \<Rightarrow> error + 'b" where
  "bind_err r f = (case r of Inl e \<Rightarrow> Inl e | Inr x \<Rightarrow> f x)"

text \<open>The decimal digits of a non-negative integer, as \<open>${Date.now()}\<close> renders it.\<close>

fun decimal :: "nat \<Rightarrow> jsstring" where
  "decimal n = (if n < 10 then [of_nat (48 + n)] else decimal (n div 10) @ [of_nat (48 + n mod 10)])"

declare decimal.simps [simp del]

section \<open>The server\<close>

text \<open>
  The model is the running server: the routes and the socket handlers of \<open>index.js\<close>.
  The start-up code of the module (reading the environment, \<open>fastify.listen\<close>) is not
  part of it.

  A session is the object \<^verbatim>\<open>{ transcript: "", streamSid: null }\<close>. Session objects live
  in a heap and are referred to by address, because the registry \<open>sessions\<close> and the
  closures of every connection's handlers hold references to them.
\<close>

record session =
  transcript :: jsstring
  streamSid :: jsval

datatype ready_state = CONNECTING | OPEN | CLOSING | CLOSED

text \<open>
  What the handlers of one \<open>/media-stream\<close> connection close over: the constant
  \<open>sessionId\<close>, the reference \<open>session\<close>, and the upstream socket \<open>vapiWs\<close>, of which
  the program reads only \<open>readyState\<close>.
\<close>

record conn =
  sessionId :: jsstring
  sess :: nat
  readyState :: ready_state

text \<open>
  The module-level variables \<open>callerNumber\<close>, \<open>callSid\<close> and \<open>sessions\<close>, the heap of
  session objects and the connections accepted so far. A connection is named by its
  index in \<open>conns\<close>, a session object by its index in \<open>heap\<close>.
\<close>

record server =
  callerNumber :: jsval
  callSid :: jsval
  sessions :: "jsstring \<rightharpoonup> nat"
  heap :: "session list"
  conns :: "conn list"

definition init :: server where
  "init = \<lparr>callerNumber = JNull, callSid = JNull, sessions = Map.empty, heap = [], conns = []\<rparr>"

text \<open>
  What a handler does to the outside: a frame sent on the upstream socket
  (\<open>vapiWs.send\<close>), a frame sent on the downstream socket (\<open>connection.socket.send\<close>),
  \<open>vapiWs.close()\<close>, the \<open>console.error\<close> of a \<open>catch\<close> block, and the
  \<open>console.error\<close> of an upstream \<open>error\<close> event. Plain \<open>console.log\<close> lines are left
  out. \<open>CallExtraction t\<close> stands for a call \<open>processTranscriptAndSend(t, ...)\<close>, the
  function of the source that hands a transcript to the extraction service. The source
  defines that function and calls it nowhere, so no handler below produces this effect.
  An effect is the call the handler makes; what the \<open>ws\<close> library then does with it (a
  frame sent on a socket that has closed is dropped) is outside the model.
\<close>

datatype effect =
    SendUpstream jsval
  | SendDownstream jsval
  | CloseUpstream
  | Caught error
  | VapiErrorLog jsval
  | CallExtraction jsstring

text \<open>
  A \<open>try { ... } catch (error) { console.error(...) }\<close> around a handler body. In both
  message handlers every expression that can throw is evaluated before the first
  assignment and before the first send, so a caught exception leaves the session as it
  was.
\<close>

definition catching :: "session \<Rightarrow> error + session \<times> effect list \<Rightarrow> session \<times> effect list" where
  "catching session r = (case r of Inl e \<Rightarrow> (session, [Caught e]) | Inr x \<Rightarrow> x)"

subsection \<open>The upstream socket\<close>

definition SYSTEM_MESSAGE :: jsstring where
  "SYSTEM_MESSAGE = concat (map (\<lambda>l. lit l @ [LF])
     [''## INSTRUCTIONS:'',
      ''- You are The Codebender, an energetic AI Voice Agent on a mission to transform everyday coders into codebenders, people who bend lines of code into digital masterpieces!'',
      ''- Please make sure to respond with a helpful voice via audio'',
      ''- Your response should be concise and to the point, keep it short. Bring the conversation back on topic if necessary.'',
      ''- You can ask the user questions. '',
      '''',
      ''------'',
      ''## PERSONALITY:'',
      ''- Be upbeat and super kind'',
      ''- Speak FAST as if excited'',
      '''',
      ''-----'',
      ''## GOAL: '',
      ''- Your primary objective is to identify if the contact is interested in joining the Codebender Accelerator program.'',
      ''- If they express interest, your mission is to provide them with useful information about our services and ultimately retrieve their name and address'',
      '''',
      ''## SERVICES INFORMATION:'',
      ''- The Codebender Accelerator program has weekly calls where we discuss state-of-the-art AI topics'',
      ''- We also have a course teaching you how to build AI apps, and MUCH more!''])"

definition VOICE :: jsstring where
  "VOICE = lit ''ballad''"

text \<open>The object the \<open>open\<close> handler builds and sends.\<close>

definition sessionUpdate :: jsval where
  "sessionUpdate =
     JObj [(lit ''type'', JStr (lit ''start'')),
           (lit ''config'', JObj
              [(lit ''audio'', JObj [(lit ''encoding'', JStr (lit ''mulaw'')),
                                     (lit ''sampleRate'', JNum (lit ''8000''))]),
               (lit ''voice'', JObj [(lit ''type'', JStr VOICE)]),
               (lit ''assistant'', JObj [(lit ''prompt'', JStr SYSTEM_MESSAGE),
                                         (lit ''temperature'', JNum (lit ''0.8''))])])]"

definition vapi_on_open :: "effect list" where
  "vapi_on_open = [SendUpstream (stringify sessionUpdate)]"

text \<open>
  The body of the \<open>try\<close> block of \<open>vapiWs.on("message")\<close>. Its argument is the outcome
  of \<open>JSON.parse(data)\<close>: a SyntaxError or the parsed value.
\<close>

definition vapi_message_body :: "error + jsval \<Rightarrow> session \<Rightarrow> error + session \<times> effect list" where
  "vapi_message_body parsed session =
     bind_err parsed (\<lambda>response.
     bind_err (get_prop response (lit ''type'')) (\<lambda>ty.
       if ty = JStr (lit ''transcript'') then
         bind_err (get_prop response (lit ''text'')) (\<lambda>t.
         bind_err (call_trim t) (\<lambda>userMessage.
           Inr (session\<lparr>transcript := transcript session @ user_prefix @ userMessage @ [LF]\<rparr>, [])))
       else if ty = JStr (lit ''assistant_response'') then
         bind_err (get_prop response (lit ''text'')) (\<lambda>agentMessage.
         bind_err (to_string agentMessage) (\<lambda>rendered.
           Inr (session\<lparr>transcript :=
                  transcript session @ agent_prefix @ rendered @ [LF]\<rparr>, [])))
       else if ty = JStr (lit ''audio'') then
         bind_err (get_prop response (lit ''chunk'')) (\<lambda>chunk.
           Inr (session,
                [SendDownstream (stringify (JObj
                   [(lit ''event'', JStr (lit ''media'')),
                    (lit ''streamSid'', streamSid session),
                    (lit ''media'', JObj [(lit ''payload'', chunk)])]))]))
       else if ty = JStr (lit ''error'') then
         bind_err (get_prop response (lit ''message'')) (\<lambda>message.
           Inr (session, [VapiErrorLog message]))
       else Inr (session, [])))"

definition vapi_on_message :: "error + jsval \<Rightarrow> session \<Rightarrow> session \<times> effect list" where
  "vapi_on_message parsed session = catching session (vapi_message_body parsed session)"

subsection \<open>The downstream socket\<close>

text \<open>
  The body of the \<open>try\<close> block of \<open>connection.socket.on("message")\<close>; \<open>rs\<close> is
  \<open>vapiWs.readyState\<close>. The \<open>media\<close> case reads \<open>data.media.payload\<close> only inside the
  \<open>if\<close>.
\<close>

definition socket_message_body ::
  "error + jsval \<Rightarrow> ready_state \<Rightarrow> session \<Rightarrow> error + session \<times> effect list" where
  "socket_message_body parsed rs session =
     bind_err parsed (\<lambda>data.
     bind_err (get_prop data (lit ''event'')) (\<lambda>ev.
       if ev = JStr (lit ''media'') then
         (if rs = OPEN then
            bind_err (get_prop data (lit ''media'')) (\<lambda>media.
            bind_err (get_prop media (lit ''payload'')) (\<lambda>payload.
              Inr (session,
                   [SendUpstream (stringify (JObj
                      [(lit ''type'', JStr (lit ''audio'')), (lit ''chunk'', payload)]))])))
          else Inr (session, []))
       else if ev = JStr (lit ''start'') then
         bind_err (get_prop data (lit ''start'')) (\<lambda>start.
         bind_err (get_prop start (lit ''streamSid'')) (\<lambda>sid.
           Inr (session\<lparr>streamSid := sid\<rparr>, [])))
       else Inr (session, [])))"

definition socket_on_message ::
  "error + jsval \<Rightarrow> ready_state \<Rightarrow> session \<Rightarrow> session \<times> effect list" where
  "socket_on_message parsed rs session = catching session (socket_message_body parsed rs session)"

text \<open>
  \<^verbatim>\<open>
  connection.socket.on("close", async () => {
    if (vapiWs.readyState === WebSocket.OPEN) { vapiWs.close(); }
    session.transcript = cleanTranscript(session.transcript);
    sessions.delete(sessionId);
  });
  \<close>
  \<open>vapiWs.close()\<close> on an open socket puts it in the state CLOSING. The handler is
  declared \<open>async\<close> and awaits nothing: it runs to its end in one piece.
\<close>

definition socket_on_close :: "nat \<Rightarrow> server \<Rightarrow> server \<times> effect list" where
  "socket_on_close i s =
     (let c = conns s ! i;
          session = heap s ! sess c;
          opened = (readyState c = OPEN)
      in (s\<lparr>conns := (conns s)[i := c\<lparr>readyState := (if opened then CLOSING else readyState c)\<rparr>],
            heap := (heap s)[sess c := session\<lparr>transcript := cleanTranscript (transcript session)\<rparr>],
            sessions := (sessions s)(sessionId c := None)\<rparr>,
          if opened then [CloseUpstream] else []))"

subsection \<open>The routes\<close>

text \<open>
  \<^verbatim>\<open>
  const sessionId = req.headers["x-twilio-call-sid"] || `session_${Date.now()}`;
  let session = sessions.get(sessionId) || { transcript: "", streamSid: null };
  sessions.set(sessionId, session);
  const vapiWs = new WebSocket(...);
  \<close>
  \<open>header\<close> is the request header, if the peer sent one; \<open>now\<close> is \<open>Date.now()\<close>.
\<close>

definition new_sessionId :: "jsstring option \<Rightarrow> nat \<Rightarrow> jsstring" where
  "new_sessionId header now =
     (case header of
        Some h \<Rightarrow> if h \<noteq> [] then h else lit ''session_'' @ decimal now
      | None \<Rightarrow> lit ''session_'' @ decimal now)"

definition media_stream :: "jsstring option \<Rightarrow> nat \<Rightarrow> server \<Rightarrow> server" where
  "media_stream header now s =
     (let sid = new_sessionId header now
      in case sessions s sid of
           Some a \<Rightarrow>
             s\<lparr>sessions := (sessions s)(sid \<mapsto> a),
               conns := conns s @ [\<lparr>sessionId = sid, sess = a, readyState = CONNECTING\<rparr>]\<rparr>
         | None \<Rightarrow>
             s\<lparr>heap := heap s @ [\<lparr>transcript = [], streamSid = JNull\<rparr>],
               sessions := (sessions s)(sid \<mapsto> length (heap s)),
               conns := conns s @
                 [\<lparr>sessionId = sid, sess = length (heap s), readyState = CONNECTING\<rparr>]\<rparr>)"

text \<open>
  The \<open>/incoming-call\<close> route: \<open>twilioParams = request.body || request.query\<close>, then
  the two module-level variables are overwritten. The TwiML reply is not modelled.
\<close>

definition incoming_call :: "jsval \<Rightarrow> jsval \<Rightarrow> server \<Rightarrow> server" where
  "incoming_call body query s =
     (let twilioParams = (if truthy body then body else query)
      in case get_prop twilioParams (lit ''From'') of
           Inl e \<Rightarrow> s
         | Inr from \<Rightarrow>
             (let s1 = s\<lparr>callerNumber := (if truthy from then from else JNull)\<rparr>
              in case get_prop twilioParams (lit ''CallSid'') of
                   Inl e \<Rightarrow> s1
                 | Inr cs \<Rightarrow> s1\<lparr>callSid := cs\<rparr>))"

subsection \<open>Events\<close>

text \<open>
  Everything that makes the server run a handler. The \<open>ws\<close> library sets
  \<open>readyState\<close> before it emits \<open>open\<close> and \<open>close\<close>, and emits \<open>open\<close> at most once, from
  the state CONNECTING; that is written into \<open>step\<close>. The handlers of \<open>close\<close> and
  \<open>error\<close> on the upstream socket only log.
\<close>

datatype event =
    IncomingCall jsval jsval
  | MediaStream "jsstring option" nat
  | VapiOpen nat
  | VapiMessage nat "error + jsval"
  | VapiClose nat
  | VapiError nat
  | SocketMessage nat "error + jsval"
  | SocketClose nat

text \<open>Runs a handler that works on the session object of connection \<open>i\<close>.\<close>

definition on_session :: "nat \<Rightarrow> (conn \<Rightarrow> session \<Rightarrow> session \<times> effect list) \<Rightarrow> server \<Rightarrow> server \<times> effect list" where
  "on_session i h s =
     (let c = conns s ! i;
          (session', effs) = h c (heap s ! sess c)
      in (s\<lparr>heap := (heap s)[sess c := session']\<rparr>, effs))"

text \<open>The connection an event belongs to.\<close>

fun conn_of :: "event \<Rightarrow> nat option" where
  "conn_of (IncomingCall body query) = None"
| "conn_of (MediaStream header now) = None"
| "conn_of (VapiOpen i) = Some i"
| "conn_of (VapiMessage i parsed) = Some i"
| "conn_of (VapiClose i) = Some i"
| "conn_of (VapiError i) = Some i"
| "conn_of (SocketMessage i parsed) = Some i"
| "conn_of (SocketClose i) = Some i"

text \<open>
  The handler an event runs, and then one event of the server: the new state and the
  effects, each tagged with the connection that produced it. An event for a connection
  that does not exist runs no handler.
\<close>

fun handle :: "event \<Rightarrow> server \<Rightarrow> server \<times> effect list" where
  "handle (IncomingCall body query) s = (incoming_call body query s, [])"
| "handle (MediaStream header now) s = (media_stream header now s, [])"
| "handle (VapiOpen i) s =
     (if readyState (conns s ! i) = CONNECTING
      then (s\<lparr>conns := (conns s)[i := (conns s ! i)\<lparr>readyState := OPEN\<rparr>]\<rparr>, vapi_on_open)
      else (s, []))"
| "handle (VapiMessage i parsed) s = on_session i (\<lambda>c. vapi_on_message parsed) s"
| "handle (VapiClose i) s = (s\<lparr>conns := (conns s)[i := (conns s ! i)\<lparr>readyState := CLOSED\<rparr>]\<rparr>, [])"
| "handle (VapiError i) s = (s, [])"
| "handle (SocketMessage i parsed) s =
     on_session i (\<lambda>c. socket_on_message parsed (readyState c)) s"
| "handle (SocketClose i) s = socket_on_close i s"

definition step :: "event \<Rightarrow> server \<Rightarrow> server \<times> (nat \<times> effect) list" where
  "step e s =
     (case conn_of e of
        None \<Rightarrow> (fst (handle e s), [])
      | Some i \<Rightarrow>
          if i < length (conns s)
          then (fst (handle e s), map (Pair i) (snd (handle e s)))
          else (s, []))"

text \<open>A run: the events in order, the effects collected.\<close>

fun run :: "event list \<Rightarrow> server \<Rightarrow> server \<times> (nat \<times> effect) list" where
  "run [] s = (s, [])"
| "run (e # es) s =
     (let (s', out) = step e s; (s'', out') = run es s' in (s'', out @ out'))"

text \<open>The frames connection \<open>i\<close> sent upstream, in order.\<close>

definition upstream_frames :: "nat \<Rightarrow> (nat \<times> effect) list \<Rightarrow> jsval list" where
  "upstream_frames i out = concat (map (\<lambda>(j, eff). case eff of SendUpstream v \<Rightarrow> if j = i then [v] else [] | _ \<Rightarrow> []) out)"

subsection \<open>The order of upstream frames\<close>

text \<open>
  The vocabulary of the ordering property: the frames among some effects that went
  upstream, what an audio frame is, and the shape ``the configuration frame first, then
  audio frames only''. \<open>allowed rs rs' fs\<close> says which upstream frames \<open>fs\<close> a connection
  may send while its upstream socket goes from state \<open>rs\<close> to state \<open>rs'\<close>.
\<close>

definition sent_up :: "effect list \<Rightarrow> jsval list" where
  "sent_up effs = concat (map (\<lambda>eff. case eff of SendUpstream v \<Rightarrow> [v] | _ \<Rightarrow> []) effs)"

definition is_audio_frame :: "jsval \<Rightarrow> bool" where
  "is_audio_frame v \<longleftrightarrow> get_prop v (lit ''type'') = Inr (JStr (lit ''audio''))"

definition configured_then_audio :: "jsval list \<Rightarrow> bool" where
  "configured_then_audio fs =
     (case fs of [] \<Rightarrow> False | f # rest \<Rightarrow> f = stringify sessionUpdate \<and> list_all is_audio_frame rest)"

fun allowed :: "ready_state \<Rightarrow> ready_state \<Rightarrow> jsval list \<Rightarrow> bool" where
  "allowed CONNECTING rs' fs =
     ((fs = [] \<and> (rs' = CONNECTING \<or> rs' = CLOSED)) \<or> (configured_then_audio fs \<and> rs' \<noteq> CONNECTING))"
| "allowed OPEN rs' fs = (list_all is_audio_frame fs \<and> rs' \<noteq> CONNECTING)"
| "allowed CLOSING rs' fs = (fs = [] \<and> (rs' = CLOSING \<or> rs' = CLOSED))"
| "allowed CLOSED rs' fs = (fs = [] \<and> rs' = CLOSED)"

text \<open>
  \<open>opened i es s\<close>: during the events \<open>es\<close>, run from the state \<open>s\<close>, the upstream
  socket of connection \<open>i\<close> is established, that is, its \<open>open\<close> event occurs while
  the socket is CONNECTING.
\<close>

fun opened :: "nat \<Rightarrow> event list \<Rightarrow> server \<Rightarrow> bool" where
  "opened i [] s = False"
| "opened i (e # es) s =
     ((e = VapiOpen i \<and> i < length (conns s) \<and> readyState (conns s ! i) = CONNECTING)
      \<or> opened i es (fst (step e s)))"

subsection \<open>Separation of sessions\<close>

text \<open>
  \<open>bindings\<close> lists, for every connection, the session identifier and the session object
  its handlers close over. \<open>separated\<close> is the invariant behind the isolation of calls:
  every reference points into the heap, the registry is injective, and two references
  held under different identifiers (by the registry or by a connection) never point to
  the same session object.
\<close>

definition bindings :: "server \<Rightarrow> (jsstring \<times> nat) list" where
  "bindings s = map (\<lambda>c. (sessionId c, sess c)) (conns s)"

definition separated :: "server \<Rightarrow> bool" where
  "separated s \<longleftrightarrow>
     (\<forall>k a. sessions s k = Some a \<longrightarrow> a < length (heap s)) \<and>
     (\<forall>b \<in> set (bindings s). snd b < length (heap s)) \<and>
     (\<forall>k k' a. sessions s k = Some a \<and> sessions s k' = Some a \<longrightarrow> k = k') \<and>
     (\<forall>b \<in> set (bindings s). \<forall>k. k \<noteq> fst b \<longrightarrow> sessions s k \<noteq> Some (snd b)) \<and>
     (\<forall>b \<in> set (bindings s). \<forall>b' \<in> set (bindings s). fst b \<noteq> fst b' \<longrightarrow> snd b \<noteq> snd b')"

subsection \<open>Example inputs\<close>

text \<open>
  Frames as the two peers send them, after \<open>JSON.parse\<close>, and a connection whose
  request carries the call identifier \<open>CA1\<close>. They are the concrete inputs of the
  evaluations below.
\<close>

definition start_event :: "string \<Rightarrow> jsval" where
  "start_event sid = JObj [(lit ''event'', JStr (lit ''start'')), (lit ''start'', JObj [(lit ''streamSid'', JStr (lit sid))])]"

definition media_event :: "string \<Rightarrow> jsval" where
  "media_event p = JObj [(lit ''event'', JStr (lit ''media'')), (lit ''media'', JObj [(lit ''payload'', JStr (lit p))])]"

definition transcript_event :: "string \<Rightarrow> jsval" where
  "transcript_event t = JObj [(lit ''type'', JStr (lit ''transcript'')), (lit ''text'', JStr (lit t))]"

definition audio_event :: "string \<Rightarrow> jsval" where
  "audio_event c = JObj [(lit ''type'', JStr (lit ''audio'')), (lit ''chunk'', JStr (lit c))]"

definition call_CA1 :: event where
  "call_CA1 = MediaStream (Some (lit ''CA1'')) 0"

text \<open>
  A request to \<open>/incoming-call\<close> with a form body, and a second connection, for the
  call identifier \<open>CA2\<close>.
\<close>

definition incoming :: "string \<Rightarrow> string \<Rightarrow> event" where
  "incoming from sid =
     IncomingCall (JObj [(lit ''From'', JStr (lit from)), (lit ''CallSid'', JStr (lit sid))]) (JObj [])"

definition call_CA2 :: event where
  "call_CA2 = MediaStream (Some (lit ''CA2'')) 0"

section \<open>Facts about splitting and joining\<close>

lemma split_from_cur: "split_from sep cur s = (cur @ hd (split_from sep [] s)) # tl (split_from sep [] s)"
proof (induction s arbitrary: cur)
  case Nil
  show ?case by simp
next
  case (Cons c cs)
  show ?case
  proof (cases "c = sep")
    case True
    then show ?thesis by simp
  next
    case False
    have "split_from sep (cur @ [c]) cs = ((cur @ [c]) @ hd (split_from sep [] cs)) # tl (split_from sep [] cs)"
      by (rule Cons.IH)
    moreover have "split_from sep [c] cs = ([c] @ hd (split_from sep [] cs)) # tl (split_from sep [] cs)"
      using Cons.IH [of "[c]"] by simp
    ultimately show ?thesis using False by simp
  qed
qed

lemma split_Nil: "split sep [] = [[]]"
  by (simp add: split_def)

lemma split_sep: "split sep (sep # cs) = [] # split sep cs"
  by (simp add: split_def)

lemma split_other: "c \<noteq> sep \<Longrightarrow> split sep (c # cs) = (c # hd (split sep cs)) # tl (split sep cs)"
  using split_from_cur [of sep "[c]" cs] by (simp add: split_def)

lemma split_not_Nil: "split sep s \<noteq> []"
proof (cases s)
  case Nil
  then show ?thesis by (simp add: split_Nil)
next
  case (Cons c cs)
  then show ?thesis by (cases "c = sep") (simp_all add: split_sep split_other)
qed

lemma split_no_sep: "l \<in> set (split sep s) \<Longrightarrow> sep \<notin> set l"
proof (induction s arbitrary: l)
  case Nil
  then show ?case by (simp add: split_Nil)
next
  case (Cons c cs)
  show ?case
  proof (cases "c = sep")
    case True
    with Cons show ?thesis by (auto simp: split_sep)
  next
    case False
    obtain h t where ht: "split sep cs = h # t"
      using split_not_Nil [of sep cs] by (cases "split sep cs") auto
    with Cons False show ?thesis by (auto simp: split_other)
  qed
qed

lemma split_append_line:
  "sep \<notin> set l \<Longrightarrow> split sep (l @ sep # rest) = l # split sep rest"
  by (induction l) (auto simp: split_sep split_other)

lemma split_line: "sep \<notin> set l \<Longrightarrow> split sep l = [l]"
  by (induction l) (auto simp: split_Nil split_other)

lemma split_join:
  assumes "\<not> P []"
  shows "(\<forall>l \<in> set ls. sep \<notin> set l) \<Longrightarrow> ls \<noteq> [] \<Longrightarrow>
         filter P (split sep (join [sep, sep] ls)) = filter P ls"
proof (induction "[sep, sep]" ls rule: join.induct)
  case 1
  then show ?case by simp
next
  case (2 l)
  then show ?case by (simp add: split_line)
next
  case (3 l m ls)
  have "split sep (join [sep, sep] (l # m # ls)) = l # [] # split sep (join [sep, sep] (m # ls))"
    using 3(2) by (simp add: split_append_line split_sep)
  with 3 assms show ?case by simp
qed

lemma startsWith_iff: "startsWith s p \<longleftrightarrow> (\<exists>q. s = p @ q)"
  by (induction s p rule: startsWith.induct) auto

lemma str_includes_iff: "str_includes s sub \<longleftrightarrow> (\<exists>p q. s = p @ sub @ q)"
proof (induction s)
  case Nil
  show ?case by auto
next
  case (Cons c cs)
  show ?case
  proof
    assume "str_includes (c # cs) sub"
    then consider "startsWith (c # cs) sub" | "str_includes cs sub" by auto
    then show "\<exists>p q. c # cs = p @ sub @ q"
    proof cases
      case 1
      then obtain q where "c # cs = sub @ q" by (auto simp: startsWith_iff)
      then have "c # cs = [] @ sub @ q" by simp
      then show ?thesis by blast
    next
      case 2
      then obtain p q where "cs = p @ sub @ q" using Cons.IH by auto
      then have "c # cs = (c # p) @ sub @ q" by simp
      then show ?thesis by blast
    qed
  next
    assume "\<exists>p q. c # cs = p @ sub @ q"
    then obtain p q where pq: "c # cs = p @ sub @ q" by auto
    show "str_includes (c # cs) sub"
    proof (cases p)
      case Nil
      with pq have "startsWith (c # cs) sub" by (auto simp: startsWith_iff)
      then show ?thesis by simp
    next
      case (Cons a p')
      with pq have "cs = p' @ sub @ q" by simp
      then have "str_includes cs sub" using Cons.IH by auto
      then show ?thesis by simp
    qed
  qed
qed

section \<open>Properties of the transcript cleaner\<close>

lemma kept_fun: "kept = (\<lambda>line. \<not> str_includes line sentinel \<and> trim line \<noteq> [])"
  by (simp add: fun_eq_iff kept_def)

lemma cleanTranscript_kept: "cleanTranscript t = join [LF, LF] (filter kept (split LF t))"
  by (simp add: cleanTranscript_def kept_fun conj_commute)

lemma trim_Nil: "trim [] = []"
  by (simp add: trim_def)

lemma not_kept_Nil: "\<not> kept []"
  by (simp add: kept_def trim_Nil)

lemma kept_not_Nil: "kept l \<Longrightarrow> l \<noteq> []"
  using not_kept_Nil by auto

lemma kept_lines_no_LF: "l \<in> set (filter kept (split LF t)) \<Longrightarrow> LF \<notin> set l"
  by (auto dest: split_no_sep)

lemma filter_split_clean:
  assumes "\<not> P []"
  shows "filter P (split LF (cleanTranscript t)) = filter P (filter kept (split LF t))"
proof (cases "filter kept (split LF t) = []")
  case True
  then show ?thesis using assms by (simp add: cleanTranscript_kept split_Nil)
next
  case False
  have "\<forall>l \<in> set (filter kept (split LF t)). LF \<notin> set l"
    using kept_lines_no_LF by blast
  then show ?thesis
    using False assms split_join [of P "filter kept (split LF t)" LF]
    by (simp add: cleanTranscript_kept)
qed

lemma kept_lines_clean: "filter kept (split LF (cleanTranscript t)) = filter kept (split LF t)"
proof -
  have "filter kept (split LF (cleanTranscript t)) = filter kept (filter kept (split LF t))"
    by (rule filter_split_clean) (rule not_kept_Nil)
  then show ?thesis by simp
qed

lemma clean_cleaned: "cleanTranscript (cleanTranscript t) = cleanTranscript t"
  using kept_lines_clean [of t] cleanTranscript_kept [of "cleanTranscript t"] cleanTranscript_kept [of t]
  by simp

lemma text_lines_clean: "text_lines (cleanTranscript t) = filter kept (split LF t)"
proof -
  have "filter (\<lambda>l. l \<noteq> []) (split LF (cleanTranscript t))
        = filter (\<lambda>l. l \<noteq> []) (filter kept (split LF t))"
    by (rule filter_split_clean) simp
  also have "\<dots> = filter kept (split LF t)"
    using kept_not_Nil by (auto intro: filter_cong simp: conj_commute)
  finally show ?thesis by (simp add: text_lines_def)
qed

text \<open>
  Claim C3, as the specification words it: the cleaner removes exactly the lines equal to
  \<open>"Agent: Agent message not found"\<close> and the lines that are empty after trimming, and keeps
  every other line. The source tests \<open>line.includes(...)\<close>, so a line that merely contains
  the sentinel goes too. The line the server itself writes for the agent message
  \<open>"Agent message not found"\<close> carries the microphone prefix: it is not equal to the
  sentinel, the specification's rule keeps it, and the code removes it.
\<close>

theorem cleanTranscript_equal_sentinel_counterexample:
  "text_lines (cleanTranscript (agent_prefix @ lit ''Agent message not found''))
     \<noteq> filter (\<lambda>line. \<not> spec_removed line)
         (split LF (agent_prefix @ lit ''Agent message not found''))"
  by (simp add: text_lines_def cleanTranscript_def split_def agent_prefix_def lit_def LF_def
       sentinel_def spec_removed_def trim_def isWhiteSpace_def)

text \<open>
  Claim C3, amended: for every transcript, the cleaner removes every line that contains
  \<open>"Agent: Agent message not found"\<close> as a substring and every line that is empty after
  trimming; the remaining lines appear in the output verbatim, in their original order,
  joined by a blank line (so the non-empty lines of the output are exactly the kept lines
  of the input).
\<close>

theorem cleanTranscript_keeps_exactly:
  "cleanTranscript t = join [LF, LF] (filter kept (split LF t))
   \<and> text_lines (cleanTranscript t) = filter kept (split LF t)
   \<and> (\<forall>line. kept line \<longleftrightarrow> \<not> (\<exists>p q. line = p @ sentinel @ q) \<and> trim line \<noteq> [])"
proof (intro conjI allI)
  show "cleanTranscript t = join [LF, LF] (filter kept (split LF t))"
    by (rule cleanTranscript_kept)
  show "text_lines (cleanTranscript t) = filter kept (split LF t)"
    by (rule text_lines_clean)
  show "kept line \<longleftrightarrow> \<not> (\<exists>p q. line = p @ sentinel @ q) \<and> trim line \<noteq> []" for line
    by (simp add: kept_def str_includes_iff)
qed

text \<open>
  Claim C4: cleaning is idempotent; for every transcript string \<open>t\<close>, cleaning the
  cleaned transcript gives the cleaned transcript again.
\<close>

theorem cleanTranscript_idempotent: "cleanTranscript (cleanTranscript t) = cleanTranscript t"
proof -
  have "cleanTranscript (cleanTranscript t)
        = join [LF, LF] (filter kept (split LF (cleanTranscript t)))"
    by (rule cleanTranscript_kept)
  also have "\<dots> = join [LF, LF] (filter kept (split LF t))"
    by (simp only: kept_lines_clean)
  also have "\<dots> = cleanTranscript t"
    by (simp only: cleanTranscript_kept)
  finally show ?thesis .
qed

section \<open>Facts about the handlers\<close>

lemmas run_defs = step_def on_session_def media_stream_def new_sessionId_def init_def socket_on_message_def
  socket_message_body_def vapi_on_message_def vapi_message_body_def catching_def bind_err_def
  socket_on_close_def incoming_call_def vapi_on_open_def Let_def lit_def

lemma bind_err_Inr: "bind_err (Inr x) f = f x"
  by (simp add: bind_err_def)

lemma bind_err_Inl: "bind_err (Inl e) f = Inl e"
  by (simp add: bind_err_def)

lemma socket_start:
  assumes "get_prop data (lit ''event'') = Inr (JStr (lit ''start''))"
    and "get_prop data (lit ''start'') = Inr st"
    and "get_prop st (lit ''streamSid'') = Inr sid"
  shows "socket_on_message (Inr data) rs session = (session\<lparr>streamSid := sid\<rparr>, [])"
  using assms
  by (simp add: socket_on_message_def socket_message_body_def catching_def bind_err_Inr lit_def)

lemma socket_media_not_open:
  assumes "get_prop data (lit ''event'') = Inr (JStr (lit ''media''))"
    and "rs \<noteq> OPEN"
  shows "socket_on_message (Inr data) rs session = (session, [])"
  using assms
  by (simp add: socket_on_message_def socket_message_body_def catching_def bind_err_Inr)

lemma socket_media_open:
  assumes "get_prop data (lit ''event'') = Inr (JStr (lit ''media''))"
    and "get_prop data (lit ''media'') = Inr m"
    and "get_prop m (lit ''payload'') = Inr p"
  shows "socket_on_message (Inr data) OPEN session =
     (session, [SendUpstream (stringify (JObj [(lit ''type'', JStr (lit ''audio'')), (lit ''chunk'', p)]))])"
  using assms
  by (simp add: socket_on_message_def socket_message_body_def catching_def bind_err_Inr)

lemma vapi_transcript:
  assumes "get_prop response (lit ''type'') = Inr (JStr (lit ''transcript''))"
    and "get_prop response (lit ''text'') = Inr (JStr t)"
  shows "vapi_on_message (Inr response) session =
     (session\<lparr>transcript := transcript session @ user_prefix @ trim t @ [LF]\<rparr>, [])"
  using assms
  by (simp add: vapi_on_message_def vapi_message_body_def catching_def bind_err_Inr)

lemma vapi_audio:
  assumes "get_prop response (lit ''type'') = Inr (JStr (lit ''audio''))"
    and "get_prop response (lit ''chunk'') = Inr chunk"
  shows "vapi_on_message (Inr response) session =
     (session, [SendDownstream (stringify (JObj
                   [(lit ''event'', JStr (lit ''media'')),
                    (lit ''streamSid'', streamSid session),
                    (lit ''media'', JObj [(lit ''payload'', chunk)])]))])"
  using assms
  by (simp add: vapi_on_message_def vapi_message_body_def catching_def bind_err_Inr lit_def)

lemma media_stream_new:
  "sessions s (new_sessionId header now) = None \<Longrightarrow>
   media_stream header now s =
     s\<lparr>heap := heap s @ [\<lparr>transcript = [], streamSid = JNull\<rparr>],
       sessions := (sessions s)(new_sessionId header now \<mapsto> length (heap s)),
       conns := conns s @ [\<lparr>sessionId = new_sessionId header now, sess = length (heap s),
                            readyState = CONNECTING\<rparr>]\<rparr>"
  by (simp add: media_stream_def Let_def)

lemma media_stream_existing:
  "sessions s (new_sessionId header now) = Some a \<Longrightarrow>
   media_stream header now s =
     s\<lparr>conns := conns s @ [\<lparr>sessionId = new_sessionId header now, sess = a,
                            readyState = CONNECTING\<rparr>]\<rparr>"
  by (simp add: media_stream_def Let_def fun_upd_idem)

lemma step_SocketMessage:
  assumes "i < length (conns s)"
    and "socket_on_message parsed (readyState (conns s ! i)) (heap s ! sess (conns s ! i)) = (se, effs)"
  shows "step (SocketMessage i parsed) s =
           (s\<lparr>heap := (heap s)[sess (conns s ! i) := se]\<rparr>, map (Pair i) effs)"
  using assms by (simp add: step_def on_session_def Let_def)

lemma step_VapiMessage:
  assumes "i < length (conns s)"
    and "vapi_on_message parsed (heap s ! sess (conns s ! i)) = (se, effs)"
  shows "step (VapiMessage i parsed) s =
           (s\<lparr>heap := (heap s)[sess (conns s ! i) := se]\<rparr>, map (Pair i) effs)"
  using assms by (simp add: step_def on_session_def Let_def)

lemma heap_same: "s\<lparr>heap := (heap s)[a := heap s ! a]\<rparr> = s"
  by simp

lemma is_json_defined: "is_json v \<Longrightarrow> v \<noteq> JUndefined"
  by auto

lemma stringify_elements:
  "(\<And>v. v \<in> set vs \<Longrightarrow> is_json v \<and> stringify v = v) \<Longrightarrow>
   map (\<lambda>v. if v = JUndefined then JNull else stringify v) vs = vs"
  by (induction vs) (auto dest: is_json_defined)

lemma stringify_fields:
  "\<forall>kv \<in> set kvs. is_json (snd kv) \<and> stringify (snd kv) = snd kv \<Longrightarrow>
   map (\<lambda>(k, v). (k, stringify v)) (filter (\<lambda>(k, v). v \<noteq> JUndefined) kvs) = kvs"
  by (induction kvs) (auto dest: is_json_defined)

lemma stringify_json: "is_json v \<Longrightarrow> stringify v = v"
proof (induction v)
  case (JArr vs)
  have "is_json v \<and> stringify v = v" if "v \<in> set vs" for v
    using that JArr by (auto simp: list_all_iff)
  then show ?case using stringify_elements [of vs] by simp
next
  case (JObj kvs)
  have "is_json (snd kv) \<and> stringify (snd kv) = snd kv" if "kv \<in> set kvs" for kv
  proof -
    have "is_json (snd kv)" using that JObj.prems by (auto simp: list_all_iff)
    moreover have "snd kv \<in> Basic_BNFs.snds kv" by (cases kv) simp
    ultimately show ?thesis using JObj.IH [OF that] by blast
  qed
  then show ?case using stringify_fields [of kvs] by simp
qed simp_all

lemma step_SocketClose_twice:
  "fst (step (SocketClose i) (fst (step (SocketClose i) s))) = fst (step (SocketClose i) s)"
proof (cases "i < length (conns s)")
  case False
  then show ?thesis by (simp add: step_def)
next
  case True
  show ?thesis
  proof (cases "sess (conns s ! i) < length (heap s)")
    case True
    with \<open>i < length (conns s)\<close> show ?thesis
      by (simp add: step_def socket_on_close_def Let_def clean_cleaned)
  next
    case False
    then have "(heap s)[sess (conns s ! i) := x] = heap s" for x
      by (simp add: list_update_beyond)
    with \<open>i < length (conns s)\<close> show ?thesis
      by (simp add: step_def socket_on_close_def Let_def)
  qed
qed

lemma step_SocketClose_sessions:
  "i < length (conns s) \<Longrightarrow> sessions (fst (step (SocketClose i) s)) (sessionId (conns s ! i)) = None"
  by (simp add: step_def socket_on_close_def Let_def)

lemma sessions_SocketClose:
  "i < length (conns s) \<Longrightarrow>
   sessions (fst (step (SocketClose i) s)) = (sessions s)(sessionId (conns s ! i) := None)"
  by (simp add: step_def socket_on_close_def Let_def)

lemma conns_SocketClose:
  "i < length (conns s) \<Longrightarrow>
   length (conns (fst (step (SocketClose i) s))) = length (conns s)
   \<and> sessionId (conns (fst (step (SocketClose i) s)) ! j) = sessionId (conns s ! j)"
  by (cases "j = i") (simp_all add: step_def socket_on_close_def Let_def)

lemma step_SocketClose_same_session:
  assumes "i < length (conns s)" and "j < length (conns s)"
    and "sessionId (conns s ! j) = sessionId (conns s ! i)"
  shows "sessions (fst (step (SocketClose j) (fst (step (SocketClose i) s))))
           = sessions (fst (step (SocketClose i) s))"
proof -
  let ?s' = "fst (step (SocketClose i) s)"
  have "j < length (conns ?s')" and "sessionId (conns ?s' ! j) = sessionId (conns s ! i)"
    using conns_SocketClose [OF assms(1), of j] assms(2,3) by simp_all
  then have "sessions (fst (step (SocketClose j) ?s')) = (sessions ?s')(sessionId (conns s ! i) := None)"
    using sessions_SocketClose [of j ?s'] by simp
  also have "\<dots> = sessions ?s'"
    using sessions_SocketClose [OF assms(1)] by simp
  finally show ?thesis .
qed

lemma incoming_call_sessions: "sessions (incoming_call body query s) = sessions s"
  by (simp add: incoming_call_def Let_def split: sum.splits)

lemma on_session_sessions: "sessions (fst (on_session i h s)) = sessions s"
  by (simp add: on_session_def Let_def split: prod.splits)

lemma step_keeps_registered:
  assumes "\<forall>j. e \<noteq> SocketClose j" and "sessions s k \<noteq> None"
  shows "sessions (fst (step e s)) k \<noteq> None"
proof (cases e)
  case (IncomingCall body query)
  with assms show ?thesis by (simp add: step_def incoming_call_sessions)
next
  case (MediaStream header now)
  with assms show ?thesis by (simp add: step_def media_stream_def Let_def split: option.splits)
next
  case (VapiOpen i)
  with assms show ?thesis by (simp add: step_def)
next
  case (VapiMessage i parsed)
  with assms show ?thesis by (simp add: step_def on_session_sessions)
next
  case (VapiClose i)
  with assms show ?thesis by (simp add: step_def)
next
  case (VapiError i)
  with assms show ?thesis by (simp add: step_def)
next
  case (SocketMessage i parsed)
  with assms show ?thesis by (simp add: step_def on_session_sessions)
next
  case (SocketClose i)
  with assms show ?thesis by simp
qed

section \<open>Properties of the server\<close>

text \<open>
  Claim C2, as the specification words it: the first \<open>start\<close> event sets the stream
  identifier and every later one is a no-op. The handler assigns
  \<open>session.streamSid = data.start.streamSid\<close> without a test, so a second \<open>start\<close>
  event with another identifier changes it.
\<close>

theorem later_start_overwrites_counterexample:
  "streamSid (heap (fst (run [call_CA1, SocketMessage 0 (Inr (start_event ''SS1'')),
                              SocketMessage 0 (Inr (start_event ''SS2''))] init)) ! 0)
   \<noteq> streamSid (heap (fst (run [call_CA1, SocketMessage 0 (Inr (start_event ''SS1''))] init)) ! 0)"
  by (simp add: run_defs start_event_def call_CA1_def)

text \<open>
  Claim C2, amended: every downstream \<open>start\<close> event that carries a \<open>start\<close> object
  sets the session's stream identifier to the \<open>streamSid\<close> of that event, whatever the
  identifier was before (the last \<open>start\<close> event wins); the transcript is untouched
  and nothing is sent.
\<close>

theorem start_sets_streamSid:
  assumes "i < length (conns s)"
    and "sess (conns s ! i) < length (heap s)"
    and "get_prop data (lit ''event'') = Inr (JStr (lit ''start''))"
    and "get_prop data (lit ''start'') = Inr st"
    and "get_prop st (lit ''streamSid'') = Inr sid"
  shows "streamSid (heap (fst (step (SocketMessage i (Inr data)) s)) ! sess (conns s ! i)) = sid
       \<and> transcript (heap (fst (step (SocketMessage i (Inr data)) s)) ! sess (conns s ! i))
           = transcript (heap s ! sess (conns s ! i))
       \<and> snd (step (SocketMessage i (Inr data)) s) = []"
  using step_SocketMessage [OF assms(1) socket_start [OF assms(3-5)]] assms(2) by simp

theorem start_sets_streamSid_witness:
  "streamSid (heap (fst (step (SocketMessage 0 (Inr (start_event ''SS2'')))
       (fst (run [call_CA1, SocketMessage 0 (Inr (start_event ''SS1''))] init)))) ! 0) = JStr (lit ''SS2'')
   \<and> streamSid (heap (fst (run [call_CA1, SocketMessage 0 (Inr (start_event ''SS1''))] init)) ! 0) = JStr (lit ''SS1'')"
  using start_sets_streamSid [of 0 "fst (run [call_CA1, SocketMessage 0 (Inr (start_event ''SS1''))] init)"
               "start_event ''SS2''" "JObj [(lit ''streamSid'', JStr (lit ''SS2''))]" "JStr (lit ''SS2'')"]
  by (simp add: run_defs start_event_def call_CA1_def)


lemma step_media_not_open:
  assumes "i < length (conns s)"
    and "get_prop data (lit ''event'') = Inr (JStr (lit ''media''))"
    and "readyState (conns s ! i) \<noteq> OPEN"
  shows "step (SocketMessage i (Inr data)) s = (s, [])"
  using step_SocketMessage [OF assms(1) socket_media_not_open [OF assms(2,3)]] by simp

lemma step_media_open:
  assumes "i < length (conns s)"
    and "get_prop data (lit ''event'') = Inr (JStr (lit ''media''))"
    and "readyState (conns s ! i) = OPEN"
    and "get_prop data (lit ''media'') = Inr m"
    and "get_prop m (lit ''payload'') = Inr p"
    and "is_json p"
  shows "step (SocketMessage i (Inr data)) s =
           (s, [(i, SendUpstream (JObj [(lit ''type'', JStr (lit ''audio'')), (lit ''chunk'', p)]))])"
proof -
  have "socket_on_message (Inr data) (readyState (conns s ! i)) (heap s ! sess (conns s ! i)) =
     (heap s ! sess (conns s ! i),
      [SendUpstream (stringify (JObj [(lit ''type'', JStr (lit ''audio'')), (lit ''chunk'', p)]))])"
    using socket_media_open [OF assms(2,4,5)] assms(3) by simp
  moreover have "stringify (JObj [(lit ''type'', JStr (lit ''audio'')), (lit ''chunk'', p)])
      = JObj [(lit ''type'', JStr (lit ''audio'')), (lit ''chunk'', p)]"
    using assms(6) by (intro stringify_json) simp
  ultimately show ?thesis
    using step_SocketMessage [OF assms(1)] by simp
qed

lemma run_Cons_silent: "step e s = (s, []) \<Longrightarrow> run (e # es) s = run es s"
  by (simp add: Let_def split: prod.splits)

text \<open>
  Claim C5: a downstream \<open>media\<close> event that arrives while the upstream socket is not
  OPEN is dropped. Nothing is sent, no exception is caught, and the server is left in
  exactly the state it was in, so the payload is kept nowhere: any later run proceeds
  as if the event had never arrived. When the upstream socket is OPEN, a payload \<open>p\<close>
  is forwarded upstream as the frame \<open>{type: "audio", chunk: p}\<close>.
\<close>

theorem media_dropped_unless_upstream_open:
  assumes "i < length (conns s)"
    and "get_prop data (lit ''event'') = Inr (JStr (lit ''media''))"
  shows "(readyState (conns s ! i) \<noteq> OPEN \<longrightarrow>
            step (SocketMessage i (Inr data)) s = (s, [])
            \<and> (\<forall>es. run (SocketMessage i (Inr data) # es) s = run es s))
       \<and> (readyState (conns s ! i) = OPEN \<longrightarrow>
            (\<forall>m p. get_prop data (lit ''media'') = Inr m \<and> get_prop m (lit ''payload'') = Inr p
                     \<and> is_json p \<longrightarrow>
               step (SocketMessage i (Inr data)) s =
                 (s, [(i, SendUpstream (JObj [(lit ''type'', JStr (lit ''audio'')),
                                               (lit ''chunk'', p)]))])))"
proof (intro conjI impI allI)
  assume closed: "readyState (conns s ! i) \<noteq> OPEN"
  show dropped: "step (SocketMessage i (Inr data)) s = (s, [])"
    using assms closed by (rule step_media_not_open)
  show "run (SocketMessage i (Inr data) # es) s = run es s" for es
    using dropped by (rule run_Cons_silent)
next
  fix m p
  assume "readyState (conns s ! i) = OPEN"
    and "get_prop data (lit ''media'') = Inr m \<and> get_prop m (lit ''payload'') = Inr p \<and> is_json p"
  then show "step (SocketMessage i (Inr data)) s =
      (s, [(i, SendUpstream (JObj [(lit ''type'', JStr (lit ''audio'')), (lit ''chunk'', p)]))])"
    using assms step_media_open by blast
qed

theorem media_dropped_unless_upstream_open_witness:
  "step (SocketMessage 0 (Inr (media_event ''abc''))) (fst (run [call_CA1] init))
     = (fst (run [call_CA1] init), [])
   \<and> step (SocketMessage 0 (Inr (media_event ''abc''))) (fst (run [call_CA1, VapiOpen 0] init))
     = (fst (run [call_CA1, VapiOpen 0] init),
        [(0, SendUpstream (JObj [(lit ''type'', JStr (lit ''audio'')), (lit ''chunk'', JStr (lit ''abc''))]))])"
proof -
  have "readyState (conns (fst (run [call_CA1] init)) ! 0) \<noteq> OPEN"
    and "0 < length (conns (fst (run [call_CA1] init)))"
    and "readyState (conns (fst (run [call_CA1, VapiOpen 0] init)) ! 0) = OPEN"
    and "0 < length (conns (fst (run [call_CA1, VapiOpen 0] init)))"
    by (simp_all add: run_defs call_CA1_def)
  moreover have "get_prop (media_event ''abc'') (lit ''event'') = Inr (JStr (lit ''media''))"
    and "get_prop (media_event ''abc'') (lit ''media'') = Inr (JObj [(lit ''payload'', JStr (lit ''abc''))])"
    and "get_prop (JObj [(lit ''payload'', JStr (lit ''abc''))]) (lit ''payload'') = Inr (JStr (lit ''abc''))"
    and "is_json (JStr (lit ''abc''))"
    by (simp_all add: media_event_def lit_def)
  ultimately show ?thesis
    using media_dropped_unless_upstream_open [of 0 "fst (run [call_CA1] init)" "media_event ''abc''"]
      media_dropped_unless_upstream_open [of 0 "fst (run [call_CA1, VapiOpen 0] init)" "media_event ''abc''"]
    by blast
qed

lemma LF_notin_user_prefix: "LF \<notin> set user_prefix"
  by (simp add: user_prefix_def LF_def lit_def)

lemma appended_line:
  assumes "LF \<notin> set u"
  shows "split LF (user_prefix @ u @ [LF]) = [user_prefix @ u, []]"
proof -
  have "LF \<notin> set (user_prefix @ u)" using assms LF_notin_user_prefix by simp
  then have "split LF ((user_prefix @ u) @ LF # []) = (user_prefix @ u) # split LF []"
    by (rule split_append_line)
  then show ?thesis by (simp add: split_Nil)
qed

text \<open>
  Claim C6, as the specification words it: an upstream \<open>transcript\<close> event with text
  \<open>t\<close> adds exactly one line equal to \<open>"User: "\<close> followed by the trimmed \<open>t\<close>. The
  template literal of the source starts with an emoji (man, zero-width joiner, briefcase)
  and a space, so for the text \<open>" hello "\<close> the line added is not \<open>"User: hello"\<close>.
\<close>

theorem transcript_line_prefix_counterexample:
  "text_lines (transcript (heap (fst (run [call_CA1, VapiMessage 0 (Inr (transcript_event '' hello ''))] init)) ! 0))
     \<noteq> text_lines (transcript (heap (fst (run [call_CA1] init)) ! 0)) @ [lit ''User: '' @ trim (lit '' hello '')]"
  by (simp add: run_defs transcript_event_def call_CA1_def text_lines_def split_def trim_def isWhiteSpace_def user_prefix_def LF_def)

text \<open>
  Claim C6, amended: for every upstream \<open>transcript\<close> event whose \<open>text\<close> is a string
  \<open>t\<close>, the session's transcript is extended by the emoji prefix, \<open>" User: "\<close>, the
  text \<open>t\<close> trimmed of leading and trailing whitespace, and a line feed; the stream
  identifier is untouched and nothing is sent. When the trimmed text contains no line
  feed, what is appended is exactly one line.
\<close>

theorem transcript_event_appends_user_line:
  assumes "i < length (conns s)"
    and "sess (conns s ! i) < length (heap s)"
    and "get_prop response (lit ''type'') = Inr (JStr (lit ''transcript''))"
    and "get_prop response (lit ''text'') = Inr (JStr t)"
  shows "transcript (heap (fst (step (VapiMessage i (Inr response)) s)) ! sess (conns s ! i))
           = transcript (heap s ! sess (conns s ! i)) @ user_prefix @ trim t @ [LF]
       \<and> streamSid (heap (fst (step (VapiMessage i (Inr response)) s)) ! sess (conns s ! i))
           = streamSid (heap s ! sess (conns s ! i))
       \<and> snd (step (VapiMessage i (Inr response)) s) = []
       \<and> (LF \<notin> set (trim t) \<longrightarrow> split LF (user_prefix @ trim t @ [LF]) = [user_prefix @ trim t, []])"
  using step_VapiMessage [OF assms(1) vapi_transcript [OF assms(3,4)]] assms(2)
  by (simp add: appended_line)

theorem transcript_event_appends_user_line_witness:
  "transcript (heap (fst (step (VapiMessage 0 (Inr (transcript_event '' hello ''))) (fst (run [call_CA1] init)))) ! 0)
     = user_prefix @ lit ''hello'' @ [LF]
   \<and> split LF (user_prefix @ lit ''hello'' @ [LF]) = [user_prefix @ lit ''hello'', []]"
proof -
  have "trim (lit '' hello '') = lit ''hello''"
    by (simp add: trim_def lit_def isWhiteSpace_def)
  moreover have "LF \<notin> set (lit ''hello'')"
    by (simp add: lit_def LF_def)
  moreover have "0 < length (conns (fst (run [call_CA1] init)))"
    and "sess (conns (fst (run [call_CA1] init)) ! 0) = 0"
    and "0 < length (heap (fst (run [call_CA1] init)))"
    and "transcript (heap (fst (run [call_CA1] init)) ! 0) = []"
    by (simp_all add: run_defs call_CA1_def)
  moreover have "get_prop (transcript_event '' hello '') (lit ''type'') = Inr (JStr (lit ''transcript''))"
    and "get_prop (transcript_event '' hello '') (lit ''text'') = Inr (JStr (lit '' hello ''))"
    by (simp_all add: transcript_event_def lit_def)
  ultimately show ?thesis
    using transcript_event_appends_user_line [of 0 "fst (run [call_CA1] init)" "transcript_event '' hello ''" "lit '' hello ''"]
    by simp
qed

text \<open>
  Claim C8: teardown is idempotent. The downstream close handler removes the connection's
  session identifier from the registry; running the handler a second time leaves the
  server (the registry included) exactly as the first run left it, and so does, for the
  registry, the close handler of any other connection of the same session identifier;
  and no event other than a downstream close removes a registered identifier.
\<close>

theorem close_twice_same_registry:
  "(i < length (conns s) \<longrightarrow>
      sessions (fst (step (SocketClose i) s)) (sessionId (conns s ! i)) = None)
   \<and> fst (step (SocketClose i) (fst (step (SocketClose i) s))) = fst (step (SocketClose i) s)
   \<and> (\<forall>j. i < length (conns s) \<and> j < length (conns s)
            \<and> sessionId (conns s ! j) = sessionId (conns s ! i) \<longrightarrow>
          sessions (fst (step (SocketClose j) (fst (step (SocketClose i) s))))
            = sessions (fst (step (SocketClose i) s)))
   \<and> (\<forall>e k. (\<forall>j. e \<noteq> SocketClose j) \<and> sessions s k \<noteq> None \<longrightarrow>
              sessions (fst (step e s)) k \<noteq> None)"
proof (intro conjI allI impI)
  show "sessions (fst (step (SocketClose i) s)) (sessionId (conns s ! i)) = None"
    if "i < length (conns s)"
    using that by (rule step_SocketClose_sessions)
  show "fst (step (SocketClose i) (fst (step (SocketClose i) s))) = fst (step (SocketClose i) s)"
    by (rule step_SocketClose_twice)
  show "sessions (fst (step (SocketClose j) (fst (step (SocketClose i) s))))
          = sessions (fst (step (SocketClose i) s))"
    if "i < length (conns s) \<and> j < length (conns s)
        \<and> sessionId (conns s ! j) = sessionId (conns s ! i)" for j
    using that step_SocketClose_same_session by blast
  show "sessions (fst (step e s)) k \<noteq> None"
    if "(\<forall>j. e \<noteq> SocketClose j) \<and> sessions s k \<noteq> None" for e k
    using that step_keeps_registered by blast
qed

theorem close_twice_same_registry_witness:
  "sessions (fst (run [call_CA1] init)) (lit ''CA1'') = Some 0
   \<and> sessions (fst (step (SocketClose 0) (fst (run [call_CA1] init)))) (lit ''CA1'') = None
   \<and> sessions (fst (step (SocketClose 0) (fst (step (SocketClose 0) (fst (run [call_CA1] init)))))) (lit ''CA1'') = None
   \<and> sessions (fst (step (VapiClose 0) (fst (run [call_CA1] init)))) (lit ''CA1'') \<noteq> None"
proof -
  have "0 < length (conns (fst (run [call_CA1] init)))"
    and "sessionId (conns (fst (run [call_CA1] init)) ! 0) = lit ''CA1''"
    and reg: "sessions (fst (run [call_CA1] init)) (lit ''CA1'') = Some 0"
    by (simp_all add: run_defs call_CA1_def)
  moreover have "\<forall>j. VapiClose 0 \<noteq> SocketClose j" by simp
  ultimately show ?thesis
    using close_twice_same_registry [of 0 "fst (run [call_CA1] init)"] by (metis option.distinct(1))
qed

text \<open>
  Claim C10: an upstream \<open>audio\<close> event that arrives while the session's stream
  identifier is still \<open>null\<close> (no downstream \<open>start\<close> event has set it) is not dropped
  and raises no error: one downstream \<open>media\<close> frame is sent, carrying the chunk, with
  \<open>streamSid\<close> equal to \<open>null\<close>; the state is unchanged. A session object that
  \<open>/media-stream\<close> has just created is in that situation.
\<close>

theorem audio_before_start_sent_with_null_streamSid:
  assumes "i < length (conns s)"
    and "get_prop response (lit ''type'') = Inr (JStr (lit ''audio''))"
    and "get_prop response (lit ''chunk'') = Inr chunk"
    and "streamSid (heap s ! sess (conns s ! i)) = JNull"
  shows "step (VapiMessage i (Inr response)) s =
           (s, [(i, SendDownstream (JObj
                  [(lit ''event'', JStr (lit ''media'')),
                   (lit ''streamSid'', JNull),
                   (lit ''media'', stringify (JObj [(lit ''payload'', chunk)]))]))])
       \<and> (is_json chunk \<longrightarrow>
            stringify (JObj [(lit ''payload'', chunk)]) = JObj [(lit ''payload'', chunk)])
       \<and> (sessions s (new_sessionId header now) = None \<longrightarrow>
            streamSid (heap (media_stream header now s)
              ! sess (conns (media_stream header now s) ! length (conns s))) = JNull)"
proof (intro conjI impI)
  show "step (VapiMessage i (Inr response)) s =
           (s, [(i, SendDownstream (JObj
                  [(lit ''event'', JStr (lit ''media'')),
                   (lit ''streamSid'', JNull),
                   (lit ''media'', stringify (JObj [(lit ''payload'', chunk)]))]))])"
    using step_VapiMessage [OF assms(1) vapi_audio [OF assms(2,3)]] assms(4) by simp
  show "stringify (JObj [(lit ''payload'', chunk)]) = JObj [(lit ''payload'', chunk)]"
    if "is_json chunk"
    using that by (intro stringify_json) simp
  show "streamSid (heap (media_stream header now s)
          ! sess (conns (media_stream header now s) ! length (conns s))) = JNull"
    if "sessions s (new_sessionId header now) = None"
    using that by (simp add: media_stream_new)
qed

theorem audio_before_start_sent_with_null_streamSid_witness:
  "step (VapiMessage 0 (Inr (audio_event ''xyz''))) (fst (run [call_CA1, VapiOpen 0] init)) =
     (fst (run [call_CA1, VapiOpen 0] init),
      [(0, SendDownstream (JObj [(lit ''event'', JStr (lit ''media'')),
                                 (lit ''streamSid'', JNull),
                                 (lit ''media'', JObj [(lit ''payload'', JStr (lit ''xyz''))])]))])"
proof -
  have "0 < length (conns (fst (run [call_CA1, VapiOpen 0] init)))"
    and "streamSid (heap (fst (run [call_CA1, VapiOpen 0] init)) ! sess (conns (fst (run [call_CA1, VapiOpen 0] init)) ! 0)) = JNull"
    by (simp_all add: run_defs call_CA1_def)
  moreover have "get_prop (audio_event ''xyz'') (lit ''type'') = Inr (JStr (lit ''audio''))"
    and "get_prop (audio_event ''xyz'') (lit ''chunk'') = Inr (JStr (lit ''xyz''))"
    by (simp_all add: audio_event_def lit_def)
  ultimately show ?thesis
    using audio_before_start_sent_with_null_streamSid [of 0 "fst (run [call_CA1, VapiOpen 0] init)" "audio_event ''xyz''" "JStr (lit ''xyz'')"]
    by simp
qed

section \<open>The order of upstream frames\<close>

lemma upstream_frames_append:
  "upstream_frames i (out @ out') = upstream_frames i out @ upstream_frames i out'"
  by (simp add: upstream_frames_def)

lemma upstream_frames_Nil: "upstream_frames i [] = []"
  by (simp add: upstream_frames_def)

lemma upstream_frames_Cons:
  "upstream_frames i ((j, eff) # out) =
     (case eff of SendUpstream v \<Rightarrow> if j = i then [v] else [] | _ \<Rightarrow> []) @ upstream_frames i out"
  by (simp add: upstream_frames_def)

lemma upstream_frames_tagged:
  "upstream_frames i (map (Pair j) effs) = (if j = i then sent_up effs else [])"
  by (induction effs) (auto simp: upstream_frames_def sent_up_def split: effect.splits)

lemma config_not_audio: "\<not> is_audio_frame (stringify sessionUpdate)"
  by (simp add: is_audio_frame_def sessionUpdate_def lit_def)

lemma allowed_refl: "allowed rs rs []"
  by (cases rs) simp_all

lemma allowed_trans:
  assumes "allowed rs rs1 f1" and "allowed rs1 rs2 f2"
  shows "allowed rs rs2 (f1 @ f2)"
proof (cases rs)
  case CONNECTING
  show ?thesis
  proof (cases "f1 = []")
    case True
    with assms CONNECTING show ?thesis
      by (cases rs1) (auto simp: configured_then_audio_def)
  next
    case False
    with assms CONNECTING have c: "configured_then_audio f1" and n: "rs1 \<noteq> CONNECTING" by auto
    from n assms(2) have "list_all is_audio_frame f2 \<and> rs2 \<noteq> CONNECTING"
      by (cases rs1) auto
    with c CONNECTING show ?thesis
      by (auto simp: configured_then_audio_def split: list.splits)
  qed
next
  case OPEN
  with assms have "list_all is_audio_frame f1" and n: "rs1 \<noteq> CONNECTING" by auto
  moreover from n assms(2) have "list_all is_audio_frame f2 \<and> rs2 \<noteq> CONNECTING"
    by (cases rs1) auto
  ultimately show ?thesis using OPEN by simp
next
  case CLOSING
  with assms show ?thesis by (cases rs1) auto
next
  case CLOSED
  with assms show ?thesis by auto
qed

lemma sent_up_vapi_on_message: "sent_up (snd (vapi_on_message parsed session)) = []"
  by (auto simp: vapi_on_message_def vapi_message_body_def catching_def bind_err_def sent_up_def
      split: sum.splits)

lemma sent_up_socket_on_message:
  "sent_up (snd (socket_on_message parsed rs session)) = []
   \<or> (rs = OPEN \<and> (\<exists>v. sent_up (snd (socket_on_message parsed rs session)) = [v] \<and> is_audio_frame v))"
  by (auto simp: socket_on_message_def socket_message_body_def catching_def bind_err_def sent_up_def
      is_audio_frame_def split: sum.splits)


lemma on_session_conns: "conns (fst (on_session i h s)) = conns s"
  by (simp add: on_session_def Let_def split: prod.splits)

lemma incoming_call_conns: "conns (incoming_call body query s) = conns s"
  by (simp add: incoming_call_def Let_def split: sum.splits)

lemma media_stream_conns:
  "\<exists>c. conns (media_stream header now s) = conns s @ [c] \<and> readyState c = CONNECTING"
  by (simp add: media_stream_def Let_def split: option.splits)

lemma snd_on_session: "snd (on_session i h s) = snd (h (conns s ! i) (heap s ! sess (conns s ! i)))"
  by (simp add: on_session_def Let_def split: prod.splits)

lemma step_length_conns: "length (conns s) \<le> length (conns (fst (step e s)))"
proof (cases e)
  case (MediaStream header now)
  then show ?thesis using media_stream_conns [of header now s] by (auto simp: step_def)
qed (auto simp: step_def incoming_call_conns on_session_conns socket_on_close_def Let_def)

lemma step_allowed:
  assumes "i < length (conns s)"
  shows "allowed (readyState (conns s ! i)) (readyState (conns (fst (step e s)) ! i))
           (upstream_frames i (snd (step e s)))"
proof (cases e)
  case (IncomingCall body query)
  then show ?thesis
    by (simp add: step_def incoming_call_conns upstream_frames_Nil allowed_refl)
next
  case (MediaStream header now)
  then show ?thesis
    using media_stream_conns [of header now s] assms
    by (auto simp: step_def upstream_frames_Nil allowed_refl nth_append)
next
  case (VapiOpen j)
  show ?thesis
  proof (cases "j = i")
    case True
    with VapiOpen assms show ?thesis
      by (cases "readyState (conns s ! i)")
         (simp_all add: step_def upstream_frames_Cons upstream_frames_Nil vapi_on_open_def
            configured_then_audio_def)
  next
    case False
    with VapiOpen assms show ?thesis
      by (simp add: step_def upstream_frames_tagged upstream_frames_Nil allowed_refl)
  qed
next
  case (VapiMessage j parsed)
  with assms show ?thesis
    by (simp add: step_def upstream_frames_tagged upstream_frames_Nil allowed_refl
        on_session_conns snd_on_session sent_up_vapi_on_message)
next
  case (VapiClose j)
  show ?thesis
  proof (cases "j = i")
    case True
    with VapiClose assms show ?thesis
      by (cases "readyState (conns s ! i)")
         (simp_all add: step_def upstream_frames_tagged upstream_frames_Nil sent_up_def)
  next
    case False
    with VapiClose assms show ?thesis
      by (simp add: step_def upstream_frames_tagged upstream_frames_Nil allowed_refl)
  qed
next
  case (VapiError j)
  with assms show ?thesis
    by (simp add: step_def upstream_frames_tagged upstream_frames_Nil allowed_refl sent_up_def)
next
  case (SocketMessage j parsed)
  show ?thesis
  proof (cases "j = i")
    case True
    have "sent_up (snd (socket_on_message parsed (readyState (conns s ! i)) (heap s ! sess (conns s ! i)))) = []
      \<or> (readyState (conns s ! i) = OPEN \<and>
          (\<exists>v. sent_up (snd (socket_on_message parsed (readyState (conns s ! i)) (heap s ! sess (conns s ! i)))) = [v]
               \<and> is_audio_frame v))"
      by (rule sent_up_socket_on_message)
    with True SocketMessage assms show ?thesis
      by (auto simp: step_def upstream_frames_tagged on_session_conns snd_on_session allowed_refl)
  next
    case False
    with SocketMessage assms show ?thesis
      by (simp add: step_def upstream_frames_tagged upstream_frames_Nil allowed_refl on_session_conns)
  qed
next
  case (SocketClose j)
  show ?thesis
  proof (cases "j = i")
    case True
    with SocketClose assms show ?thesis
      by (cases "readyState (conns s ! i)")
         (simp_all add: step_def upstream_frames_Cons upstream_frames_Nil socket_on_close_def
            Let_def)
  next
    case False
    with SocketClose assms show ?thesis
      by (simp add: step_def upstream_frames_Cons upstream_frames_Nil allowed_refl
          socket_on_close_def Let_def)
  qed
qed

lemma run_allowed:
  "i < length (conns s) \<Longrightarrow>
   allowed (readyState (conns s ! i)) (readyState (conns (fst (run es s)) ! i))
     (upstream_frames i (snd (run es s)))"
proof (induction es arbitrary: s)
  case Nil
  show ?case by (simp add: upstream_frames_Nil allowed_refl)
next
  case (Cons e es)
  have len: "i < length (conns (fst (step e s)))"
    using Cons.prems step_length_conns [of s e] by simp
  have one: "allowed (readyState (conns s ! i)) (readyState (conns (fst (step e s)) ! i))
               (upstream_frames i (snd (step e s)))"
    using Cons.prems by (rule step_allowed)
  have rest: "allowed (readyState (conns (fst (step e s)) ! i))
                (readyState (conns (fst (run es (fst (step e s)))) ! i))
                (upstream_frames i (snd (run es (fst (step e s)))))"
    using len by (rule Cons.IH)
  have "fst (run (e # es) s) = fst (run es (fst (step e s)))"
    and "snd (run (e # es) s) = snd (step e s) @ snd (run es (fst (step e s)))"
    by (simp_all add: Let_def split: prod.splits)
  then show ?case
    using allowed_trans [OF one rest] by (simp add: upstream_frames_append)
qed

lemma step_open_frames:
  assumes "i < length (conns s)" and "readyState (conns s ! i) = CONNECTING"
  shows "upstream_frames i (snd (step (VapiOpen i) s)) = [stringify sessionUpdate]"
  using assms by (simp add: step_def vapi_on_open_def upstream_frames_Cons upstream_frames_Nil)

lemma step_other_frames:
  assumes "i < length (conns s)"
    and "\<not> (e = VapiOpen i \<and> readyState (conns s ! i) = CONNECTING)"
  shows "list_all is_audio_frame (upstream_frames i (snd (step e s)))"
proof (cases "readyState (conns s ! i) = CONNECTING")
  case False
  then show ?thesis
    using step_allowed [OF assms(1), of e] by (cases "readyState (conns s ! i)") auto
next
  case True
  with assms(2) have ne: "e \<noteq> VapiOpen i" by simp
  show ?thesis
  proof (cases e)
    case (VapiOpen j)
    with ne have "j \<noteq> i" by simp
    with VapiOpen show ?thesis
      by (simp add: step_def upstream_frames_tagged upstream_frames_Nil)
  next
    case (SocketMessage j parsed)
    show ?thesis
    proof (cases "j = i")
      case eq: True
      have "sent_up (snd (socket_on_message parsed (readyState (conns s ! i)) (heap s ! sess (conns s ! i)))) = []"
        using sent_up_socket_on_message [of parsed "readyState (conns s ! i)" "heap s ! sess (conns s ! i)"] True
        by auto
      with eq SocketMessage assms(1) show ?thesis
        by (simp add: step_def upstream_frames_tagged snd_on_session)
    next
      case False
      with SocketMessage show ?thesis
        by (simp add: step_def upstream_frames_tagged upstream_frames_Nil)
    qed
  next
    case (VapiMessage j parsed)
    then show ?thesis
      by (simp add: step_def upstream_frames_tagged upstream_frames_Nil snd_on_session
          sent_up_vapi_on_message)
  next
    case (SocketClose j)
    then show ?thesis
      by (simp add: step_def upstream_frames_tagged upstream_frames_Nil socket_on_close_def
          Let_def sent_up_def)
  qed (simp_all add: step_def upstream_frames_tagged upstream_frames_Nil sent_up_def)
qed

lemma step_stays_past_connecting:
  assumes "i < length (conns s)" and "readyState (conns s ! i) \<noteq> CONNECTING"
  shows "readyState (conns (fst (step e s)) ! i) \<noteq> CONNECTING"
  using step_allowed [OF assms(1), of e] assms(2) by (cases "readyState (conns s ! i)") auto

lemma run_Cons_parts:
  "fst (run (e # es) s) = fst (run es (fst (step e s)))"
  "snd (run (e # es) s) = snd (step e s) @ snd (run es (fst (step e s)))"
  by (simp_all add: Let_def split: prod.splits)

lemma run_opened:
  "i < length (conns s) \<Longrightarrow>
   (opened i es s \<longrightarrow> readyState (conns s ! i) = CONNECTING \<and> upstream_frames i (snd (run es s)) \<noteq> [])
   \<and> (\<not> opened i es s \<longrightarrow> list_all is_audio_frame (upstream_frames i (snd (run es s))))"
proof (induction es arbitrary: s)
  case Nil
  show ?case by (simp add: upstream_frames_Nil)
next
  case (Cons e es)
  let ?s1 = "fst (step e s)"
  have len: "i < length (conns ?s1)"
    using Cons.prems step_length_conns [of s e] by simp
  note IH = Cons.IH [OF len]
  have parts: "upstream_frames i (snd (run (e # es) s))
      = upstream_frames i (snd (step e s)) @ upstream_frames i (snd (run es ?s1))"
    by (simp only: run_Cons_parts upstream_frames_append)
  show ?case
  proof (cases "e = VapiOpen i \<and> readyState (conns s ! i) = CONNECTING")
    case True
    then have "upstream_frames i (snd (step e s)) = [stringify sessionUpdate]"
      using step_open_frames [OF Cons.prems] by simp
    then have "upstream_frames i (snd (run (e # es) s)) \<noteq> []"
      using parts by simp
    moreover have "opened i (e # es) s"
      using True Cons.prems by simp
    ultimately show ?thesis
      using True by blast
  next
    case False
    have audio1: "list_all is_audio_frame (upstream_frames i (snd (step e s)))"
      using Cons.prems False by (rule step_other_frames)
    have eq: "opened i (e # es) s = opened i es ?s1"
      using False Cons.prems by auto
    show ?thesis
    proof (cases "opened i es ?s1")
      case True
      with IH have c1: "readyState (conns ?s1 ! i) = CONNECTING"
        and ne: "upstream_frames i (snd (run es ?s1)) \<noteq> []" by simp_all
      have "readyState (conns s ! i) = CONNECTING"
        using step_stays_past_connecting [OF Cons.prems, of e] c1 by blast
      moreover have "upstream_frames i (snd (run (e # es) s)) \<noteq> []"
        using parts ne by simp
      ultimately show ?thesis
        using eq True by blast
    next
      case no: False
      with IH have "list_all is_audio_frame (upstream_frames i (snd (run es ?s1)))" by simp
      with audio1 have "list_all is_audio_frame (upstream_frames i (snd (run (e # es) s)))"
        using parts by simp
      then show ?thesis
        using eq no by blast
    qed
  qed
qed

lemma configured_then_audio_count:
  assumes "configured_then_audio fs"
  shows "length (filter (\<lambda>v. v = stringify sessionUpdate) fs) = 1"
proof -
  obtain rest where fs: "fs = stringify sessionUpdate # rest" and a: "list_all is_audio_frame rest"
    using assms by (auto simp: configured_then_audio_def split: list.splits)
  have "filter (\<lambda>v. v = stringify sessionUpdate) rest = []"
    using a config_not_audio by (auto simp: filter_empty_conv list_all_iff)
  with fs show ?thesis by simp
qed

lemma configured_not_all_audio: "configured_then_audio fs \<Longrightarrow> \<not> list_all is_audio_frame fs"
  using config_not_audio by (auto simp: configured_then_audio_def split: list.splits)

text \<open>
  Claim C7: on every connection, once the upstream socket has been established, exactly
  one session-start configuration frame (audio format, voice, system prompt,
  temperature) has been sent upstream, whatever happens afterwards, the closing of the
  socket included; it is the first frame sent, and every frame after it is an audio
  frame, so no audio chunk is forwarded before it. A connection whose upstream socket
  is never established sends no frame upstream at all. A socket that is OPEN or CLOSING
  has been established.
\<close>

theorem configuration_precedes_audio:
  assumes "run es (media_stream header now s) = (s', out)"
  shows "(opened (length (conns s)) es (media_stream header now s) \<longrightarrow>
            (\<exists>audio. upstream_frames (length (conns s)) out = stringify sessionUpdate # audio
                     \<and> list_all is_audio_frame audio)
            \<and> length (filter (\<lambda>v. v = stringify sessionUpdate)
                 (upstream_frames (length (conns s)) out)) = 1)
       \<and> (\<not> opened (length (conns s)) es (media_stream header now s) \<longrightarrow>
            upstream_frames (length (conns s)) out = [])
       \<and> (readyState (conns s' ! length (conns s)) = OPEN
          \<or> readyState (conns s' ! length (conns s)) = CLOSING
          \<longrightarrow> opened (length (conns s)) es (media_stream header now s))
       \<and> \<not> is_audio_frame (stringify sessionUpdate)"
proof -
  let ?i = "length (conns s)"
  let ?s0 = "media_stream header now s"
  let ?fs = "upstream_frames ?i out"
  obtain c where c: "conns ?s0 = conns s @ [c]" "readyState c = CONNECTING"
    using media_stream_conns by blast
  then have len: "?i < length (conns ?s0)"
    and rs: "readyState (conns ?s0 ! ?i) = CONNECTING"
    by simp_all
  have al: "allowed CONNECTING (readyState (conns s' ! ?i)) ?fs"
    using run_allowed [OF len, of es] rs assms by simp
  have op: "(opened ?i es ?s0 \<longrightarrow> ?fs \<noteq> []) \<and> (\<not> opened ?i es ?s0 \<longrightarrow> list_all is_audio_frame ?fs)"
    using run_opened [OF len, of es] assms by simp
  have shape: "?fs = [] \<or> configured_then_audio ?fs"
    using al by auto
  have yes: "configured_then_audio ?fs" if "opened ?i es ?s0"
    using that op shape by blast
  have no: "?fs = []" if "\<not> opened ?i es ?s0"
    using that op shape configured_not_all_audio by blast
  have live: "opened ?i es ?s0"
    if "readyState (conns s' ! ?i) = OPEN \<or> readyState (conns s' ! ?i) = CLOSING"
  proof (rule ccontr)
    assume "\<not> opened ?i es ?s0"
    then have "?fs = []" by (rule no)
    with al that show False by (auto simp: configured_then_audio_def)
  qed
  show ?thesis
  proof (intro conjI impI)
    assume o: "opened ?i es ?s0"
    show "\<exists>audio. ?fs = stringify sessionUpdate # audio \<and> list_all is_audio_frame audio"
      using yes [OF o] by (auto simp: configured_then_audio_def split: list.splits)
    show "length (filter (\<lambda>v. v = stringify sessionUpdate) ?fs) = 1"
      using yes [OF o] by (rule configured_then_audio_count)
  next
    assume "\<not> opened ?i es ?s0"
    then show "?fs = []" by (rule no)
  next
    assume "readyState (conns s' ! ?i) = OPEN \<or> readyState (conns s' ! ?i) = CLOSING"
    then show "opened ?i es ?s0" by (rule live)
  next
    show "\<not> is_audio_frame (stringify sessionUpdate)" by (rule config_not_audio)
  qed
qed

theorem configuration_precedes_audio_witness:
  "opened 0 [VapiOpen 0, SocketMessage 0 (Inr (media_event ''abc'')), VapiClose 0]
     (media_stream (Some (lit ''CA1'')) 0 init)
   \<and> upstream_frames 0 (snd (run [VapiOpen 0, SocketMessage 0 (Inr (media_event ''abc'')), VapiClose 0]
       (media_stream (Some (lit ''CA1'')) 0 init)))
     = [stringify sessionUpdate, JObj [(lit ''type'', JStr (lit ''audio'')), (lit ''chunk'', JStr (lit ''abc''))]]
   \<and> length (filter (\<lambda>v. v = stringify sessionUpdate)
       (upstream_frames 0 (snd (run [VapiOpen 0, SocketMessage 0 (Inr (media_event ''abc'')), VapiClose 0]
          (media_stream (Some (lit ''CA1'')) 0 init))))) = 1
   \<and> readyState (conns (fst (run [VapiOpen 0, SocketMessage 0 (Inr (media_event ''abc'')), VapiClose 0]
       (media_stream (Some (lit ''CA1'')) 0 init))) ! 0) = CLOSED
   \<and> \<not> opened 0 [SocketMessage 0 (Inr (media_event ''abc'')), VapiError 0, VapiClose 0, SocketClose 0]
       (media_stream (Some (lit ''CA1'')) 0 init)
   \<and> upstream_frames 0 (snd (run [SocketMessage 0 (Inr (media_event ''abc'')), VapiError 0, VapiClose 0,
       SocketClose 0] (media_stream (Some (lit ''CA1'')) 0 init))) = []"
proof -
  let ?s0 = "media_stream (Some (lit ''CA1'')) 0 init"
  let ?good = "[VapiOpen 0, SocketMessage 0 (Inr (media_event ''abc'')), VapiClose 0]"
  let ?bad = "[SocketMessage 0 (Inr (media_event ''abc'')), VapiError 0, VapiClose 0, SocketClose 0]"
  have len: "length (conns init) = 0"
    by (simp add: init_def)
  have o1: "opened 0 ?good ?s0"
    by (simp add: run_defs)
  have o2: "\<not> opened 0 ?bad ?s0"
    by (simp add: run_defs media_event_def)
  have frames: "upstream_frames 0 (snd (run ?good ?s0))
      = [stringify sessionUpdate, JObj [(lit ''type'', JStr (lit ''audio'')), (lit ''chunk'', JStr (lit ''abc''))]]"
    and closed: "readyState (conns (fst (run ?good ?s0)) ! 0) = CLOSED"
    by (simp_all add: run_defs media_event_def upstream_frames_def)
  have "length (filter (\<lambda>v. v = stringify sessionUpdate) (upstream_frames 0 (snd (run ?good ?s0)))) = 1"
    using configuration_precedes_audio [of ?good "Some (lit ''CA1'')" 0 init "fst (run ?good ?s0)" "snd (run ?good ?s0)"] o1 len
    by simp
  moreover have "upstream_frames 0 (snd (run ?bad ?s0)) = []"
    using configuration_precedes_audio [of ?bad "Some (lit ''CA1'')" 0 init "fst (run ?bad ?s0)" "snd (run ?bad ?s0)"] o2 len
    by simp
  ultimately show ?thesis
    using o1 o2 frames closed by blast
qed

section \<open>Separation of sessions\<close>

lemma separated_init: "separated init"
  by (simp add: separated_def bindings_def init_def)

lemma bindings_readyState:
  "i < length (conns s) \<Longrightarrow>
   map (\<lambda>c. (sessionId c, sess c)) ((conns s)[i := (conns s ! i)\<lparr>readyState := r\<rparr>]) = bindings s"
  by (simp add: bindings_def map_update list_update_same_conv)

lemma separated_cong:
  assumes "separated s"
    and b: "bindings t = bindings s"
    and l: "length (heap t) = length (heap s)"
    and m: "\<And>k a. sessions t k = Some a \<Longrightarrow> sessions s k = Some a"
  shows "separated t"
  unfolding separated_def
proof (intro conjI)
  show "\<forall>k a. sessions t k = Some a \<longrightarrow> a < length (heap t)"
    using assms(1) m l unfolding separated_def by metis
  show "\<forall>b \<in> set (bindings t). snd b < length (heap t)"
    using assms(1) b l unfolding separated_def by metis
  show "\<forall>k k' a. sessions t k = Some a \<and> sessions t k' = Some a \<longrightarrow> k = k'"
    using assms(1) m unfolding separated_def by metis
  show "\<forall>b \<in> set (bindings t). \<forall>k. k \<noteq> fst b \<longrightarrow> sessions t k \<noteq> Some (snd b)"
    using assms(1) m b unfolding separated_def by metis
  show "\<forall>b \<in> set (bindings t). \<forall>b' \<in> set (bindings t). fst b \<noteq> fst b' \<longrightarrow> snd b \<noteq> snd b'"
    using assms(1) b unfolding separated_def by metis
qed


lemma separated_media_stream:
  assumes sep: "separated s"
  shows "separated (media_stream header now s)"
proof (cases "sessions s (new_sessionId header now)")
  case None
  let ?sid = "new_sessionId header now"
  let ?n = "length (heap s)"
  let ?t = "media_stream header now s"
  have h: "length (heap ?t) = Suc ?n"
    and m: "sessions ?t = (sessions s)(?sid \<mapsto> ?n)"
    and b: "set (bindings ?t) = insert (?sid, ?n) (set (bindings s))"
    using None by (simp_all add: media_stream_new bindings_def)
  have old1: "\<And>k a. sessions s k = Some a \<Longrightarrow> a < ?n"
    and old2: "\<And>b. b \<in> set (bindings s) \<Longrightarrow> snd b < ?n"
    and old3: "\<And>k k' a. sessions s k = Some a \<Longrightarrow> sessions s k' = Some a \<Longrightarrow> k = k'"
    and old4: "\<And>b k. b \<in> set (bindings s) \<Longrightarrow> k \<noteq> fst b \<Longrightarrow> sessions s k \<noteq> Some (snd b)"
    and old5: "\<And>b b'. b \<in> set (bindings s) \<Longrightarrow> b' \<in> set (bindings s) \<Longrightarrow> fst b \<noteq> fst b' \<Longrightarrow> snd b \<noteq> snd b'"
    using sep unfolding separated_def by blast+
  have fresh1: "\<And>k. sessions s k \<noteq> Some ?n"
    using old1 by blast
  have fresh2: "\<And>k. (k, ?n) \<notin> set (bindings s)"
    using old2 by force
  show ?thesis
    unfolding separated_def
  proof (intro conjI)
    show "\<forall>k a. sessions ?t k = Some a \<longrightarrow> a < length (heap ?t)"
      using old1 by (auto simp: h m less_Suc_eq)
    show "\<forall>b \<in> set (bindings ?t). snd b < length (heap ?t)"
      using old2 by (auto simp: h b less_Suc_eq)
    show "\<forall>k k' a. sessions ?t k = Some a \<and> sessions ?t k' = Some a \<longrightarrow> k = k'"
      using fresh1 old3 by (auto simp: m split: if_splits)
    show "\<forall>b \<in> set (bindings ?t). \<forall>k. k \<noteq> fst b \<longrightarrow> sessions ?t k \<noteq> Some (snd b)"
      using fresh1 fresh2 old4 by (auto simp: m b)
    show "\<forall>b \<in> set (bindings ?t). \<forall>b' \<in> set (bindings ?t). fst b \<noteq> fst b' \<longrightarrow> snd b \<noteq> snd b'"
      using fresh2 old5 by (auto simp: b)
  qed
next
  case (Some a)
  let ?sid = "new_sessionId header now"
  let ?t = "media_stream header now s"
  have h: "heap ?t = heap s"
    and m: "sessions ?t = sessions s"
    and b: "set (bindings ?t) = insert (?sid, a) (set (bindings s))"
    using Some by (simp_all add: media_stream_existing bindings_def)
  have old1: "\<And>k a. sessions s k = Some a \<Longrightarrow> a < length (heap s)"
    and old2: "\<And>b. b \<in> set (bindings s) \<Longrightarrow> snd b < length (heap s)"
    and old3: "\<And>k k' a. sessions s k = Some a \<Longrightarrow> sessions s k' = Some a \<Longrightarrow> k = k'"
    and old4: "\<And>b k. b \<in> set (bindings s) \<Longrightarrow> k \<noteq> fst b \<Longrightarrow> sessions s k \<noteq> Some (snd b)"
    and old5: "\<And>b b'. b \<in> set (bindings s) \<Longrightarrow> b' \<in> set (bindings s) \<Longrightarrow> fst b \<noteq> fst b' \<Longrightarrow> snd b \<noteq> snd b'"
    using sep unfolding separated_def by blast+
  show ?thesis
    unfolding separated_def
  proof (intro conjI)
    show "\<forall>k a. sessions ?t k = Some a \<longrightarrow> a < length (heap ?t)"
      using old1 by (simp add: h m)
    show "\<forall>b \<in> set (bindings ?t). snd b < length (heap ?t)"
      using old1 [OF Some] old2 by (auto simp: h b)
    show "\<forall>k k' a. sessions ?t k = Some a \<and> sessions ?t k' = Some a \<longrightarrow> k = k'"
      using old3 by (auto simp: m)
    show "\<forall>b \<in> set (bindings ?t). \<forall>k. k \<noteq> fst b \<longrightarrow> sessions ?t k \<noteq> Some (snd b)"
      using old3 [OF _ Some] old4 by (auto simp: m b)
    show "\<forall>b \<in> set (bindings ?t). \<forall>b' \<in> set (bindings ?t). fst b \<noteq> fst b' \<longrightarrow> snd b \<noteq> snd b'"
      using old4 old5 Some by (auto simp: b)
  qed
qed

lemma incoming_call_heap: "heap (incoming_call body query s) = heap s"
  by (simp add: incoming_call_def Let_def split: sum.splits)

lemma on_session_heap_length: "length (heap (fst (on_session i h s))) = length (heap s)"
  by (simp add: on_session_def Let_def split: prod.splits)

lemma separated_step:
  assumes "separated s"
  shows "separated (fst (step e s))"
proof (cases e)
  case (IncomingCall body query)
  have "separated (incoming_call body query s)"
    using assms
    by (rule separated_cong)
       (simp_all add: bindings_def incoming_call_conns incoming_call_heap incoming_call_sessions)
  with IncomingCall show ?thesis by (simp add: step_def)
next
  case (MediaStream header now)
  with assms show ?thesis by (simp add: step_def separated_media_stream)
next
  case (VapiOpen i)
  show ?thesis
  proof (cases "i < length (conns s) \<and> readyState (conns s ! i) = CONNECTING")
    case True
    have "separated (s\<lparr>conns := (conns s)[i := (conns s ! i)\<lparr>readyState := OPEN\<rparr>]\<rparr>)"
      using assms
    proof (rule separated_cong)
      show "bindings (s\<lparr>conns := (conns s)[i := (conns s ! i)\<lparr>readyState := OPEN\<rparr>]\<rparr>) = bindings s"
        using True bindings_readyState [of i s OPEN] by (simp add: bindings_def)
    qed simp_all
    with VapiOpen True show ?thesis by (simp add: step_def)
  next
    case False
    with VapiOpen assms show ?thesis by (auto simp: step_def)
  qed
next
  case (VapiMessage i parsed)
  have "separated (fst (on_session i (\<lambda>c. vapi_on_message parsed) s))"
    using assms
    by (rule separated_cong)
       (simp_all add: bindings_def on_session_conns on_session_heap_length on_session_sessions)
  with VapiMessage assms show ?thesis by (simp add: step_def)
next
  case (VapiClose i)
  show ?thesis
  proof (cases "i < length (conns s)")
    case True
    have "separated (s\<lparr>conns := (conns s)[i := (conns s ! i)\<lparr>readyState := CLOSED\<rparr>]\<rparr>)"
      using assms
    proof (rule separated_cong)
      show "bindings (s\<lparr>conns := (conns s)[i := (conns s ! i)\<lparr>readyState := CLOSED\<rparr>]\<rparr>) = bindings s"
        using True bindings_readyState [of i s CLOSED] by (simp add: bindings_def)
    qed simp_all
    with VapiClose True show ?thesis by (simp add: step_def)
  next
    case False
    with VapiClose assms show ?thesis by (simp add: step_def)
  qed
next
  case (VapiError i)
  with assms show ?thesis by (simp add: step_def)
next
  case (SocketMessage i parsed)
  have "separated (fst (on_session i (\<lambda>c. socket_on_message parsed (readyState c)) s))"
    using assms
    by (rule separated_cong)
       (simp_all add: bindings_def on_session_conns on_session_heap_length on_session_sessions)
  with SocketMessage assms show ?thesis by (simp add: step_def)
next
  case (SocketClose i)
  show ?thesis
  proof (cases "i < length (conns s)")
    case True
    have "separated (fst (socket_on_close i s))"
      using assms
    proof (rule separated_cong)
      show "bindings (fst (socket_on_close i s)) = bindings s"
        using True bindings_readyState [of i s]
        by (simp add: bindings_def socket_on_close_def Let_def list_update_same_conv)
      show "length (heap (fst (socket_on_close i s))) = length (heap s)"
        by (simp add: socket_on_close_def Let_def)
      show "sessions (fst (socket_on_close i s)) k = Some a \<Longrightarrow> sessions s k = Some a" for k a
        by (simp add: socket_on_close_def Let_def split: if_splits)
    qed
    with SocketClose True show ?thesis by (simp add: step_def)
  next
    case False
    with SocketClose assms show ?thesis by (simp add: step_def)
  qed
qed

lemma separated_run: "separated s \<Longrightarrow> separated (fst (run es s))"
proof (induction es arbitrary: s)
  case Nil
  then show ?case by simp
next
  case (Cons e es)
  have "fst (run (e # es) s) = fst (run es (fst (step e s)))"
    by (simp add: Let_def split: prod.splits)
  with Cons show ?case by (simp add: separated_step)
qed

lemma separated_conns:
  assumes "separated s" and "i < length (conns s)" and "j < length (conns s)"
    and "sessionId (conns s ! i) \<noteq> sessionId (conns s ! j)"
  shows "sess (conns s ! i) \<noteq> sess (conns s ! j)"
    and "sessions s (sessionId (conns s ! i)) \<noteq> Some (sess (conns s ! j))"
    and "sess (conns s ! i) < length (heap s)"
proof -
  have bi: "(sessionId (conns s ! i), sess (conns s ! i)) \<in> set (bindings s)"
    and bj: "(sessionId (conns s ! j), sess (conns s ! j)) \<in> set (bindings s)"
    using assms(2,3) by (auto simp: bindings_def)
  have old2: "\<And>b. b \<in> set (bindings s) \<Longrightarrow> snd b < length (heap s)"
    and old4: "\<And>b k. b \<in> set (bindings s) \<Longrightarrow> k \<noteq> fst b \<Longrightarrow> sessions s k \<noteq> Some (snd b)"
    and old5: "\<And>b b'. b \<in> set (bindings s) \<Longrightarrow> b' \<in> set (bindings s) \<Longrightarrow> fst b \<noteq> fst b' \<Longrightarrow> snd b \<noteq> snd b'"
    using assms(1) unfolding separated_def by blast+
  show "sess (conns s ! i) \<noteq> sess (conns s ! j)"
    using old5 [OF bi bj] assms(4) by simp
  show "sessions s (sessionId (conns s ! i)) \<noteq> Some (sess (conns s ! j))"
    using old4 [OF bj, of "sessionId (conns s ! i)"] assms(4) by simp
  show "sess (conns s ! i) < length (heap s)"
    using old2 [OF bi] by simp
qed

lemma step_frame:
  assumes "conn_of e = Some i" and "i < length (conns s)"
  shows "b \<noteq> sess (conns s ! i) \<Longrightarrow> heap (fst (step e s)) ! b = heap s ! b"
    and "k \<noteq> sessionId (conns s ! i) \<Longrightarrow> sessions (fst (step e s)) k = sessions s k"
    and "callerNumber (fst (step e s)) = callerNumber s"
    and "callSid (fst (step e s)) = callSid s"
  using assms
  by (cases e; simp add: step_def on_session_def socket_on_close_def Let_def split: prod.splits)+

lemma step_local:
  assumes "conn_of e = Some i"
    and "i < length (conns s)" and "i < length (conns t)"
    and "conns t ! i = conns s ! i"
    and "sess (conns s ! i) < length (heap s)" and "sess (conns s ! i) < length (heap t)"
    and "heap t ! sess (conns s ! i) = heap s ! sess (conns s ! i)"
  shows "snd (step e t) = snd (step e s)"
    and "heap (fst (step e t)) ! sess (conns s ! i) = heap (fst (step e s)) ! sess (conns s ! i)"
  using assms
  by (cases e; simp add: step_def on_session_def socket_on_close_def Let_def split: prod.splits)+

text \<open>
  Claim C9, as the specification words it: the sessions of two calls share no mutable
  state, and no handler of one call overwrites a value written on behalf of the other.
  The caller number and the call identifier of \<open>/incoming-call\<close> are kept in the two
  module-level variables \<open>callerNumber\<close> and \<open>callSid\<close>, one pair for the whole
  process: the request for a second call overwrites what the request for the first
  call wrote.
\<close>

theorem shared_caller_number_counterexample:
  "callerNumber (fst (run [incoming ''+15550002'' ''CA2'', incoming ''+15550001'' ''CA1''] init))
     \<noteq> callerNumber (fst (run [incoming ''+15550002'' ''CA2''] init))"
  by (simp add: run_defs incoming_def)

text \<open>
  Claim C9, amended: in every state the server can reach, two connections with
  different session identifiers hold different session objects, and registry lookup by
  one identifier never returns the other's session object; an event of one connection
  leaves the other's session object and registry entry as they were; and what a
  connection's handler sends and writes into its own session depends on nothing but
  that connection and its own session object. (The module-level \<open>callerNumber\<close> and
  \<open>callSid\<close> are not part of a session; no socket handler reads or writes them.)
\<close>

theorem distinct_calls_separate_sessions:
  assumes "s = fst (run es init)"
    and "i < length (conns s)" and "j < length (conns s)"
    and "sessionId (conns s ! i) \<noteq> sessionId (conns s ! j)"
  shows "sess (conns s ! i) \<noteq> sess (conns s ! j)
       \<and> sessions s (sessionId (conns s ! i)) \<noteq> Some (sess (conns s ! j))
       \<and> (\<forall>e. conn_of e = Some i \<longrightarrow>
             heap (fst (step e s)) ! sess (conns s ! j) = heap s ! sess (conns s ! j)
           \<and> sessions (fst (step e s)) (sessionId (conns s ! j)) = sessions s (sessionId (conns s ! j))
           \<and> callerNumber (fst (step e s)) = callerNumber s
           \<and> callSid (fst (step e s)) = callSid s)
       \<and> (\<forall>e t. conn_of e = Some i \<and> i < length (conns t) \<and> conns t ! i = conns s ! i
                \<and> sess (conns s ! i) < length (heap t)
                \<and> heap t ! sess (conns s ! i) = heap s ! sess (conns s ! i) \<longrightarrow>
             snd (step e t) = snd (step e s)
           \<and> heap (fst (step e t)) ! sess (conns s ! i)
               = heap (fst (step e s)) ! sess (conns s ! i))"
proof -
  have sep: "separated s"
    using assms(1) separated_init by (simp add: separated_run)
  have diff: "sess (conns s ! i) \<noteq> sess (conns s ! j)"
    and reg: "sessions s (sessionId (conns s ! i)) \<noteq> Some (sess (conns s ! j))"
    and inb: "sess (conns s ! i) < length (heap s)"
    using separated_conns [OF sep assms(2,3,4)] by blast+
  have frame: "heap (fst (step e s)) ! sess (conns s ! j) = heap s ! sess (conns s ! j)
      \<and> sessions (fst (step e s)) (sessionId (conns s ! j)) = sessions s (sessionId (conns s ! j))
      \<and> callerNumber (fst (step e s)) = callerNumber s
      \<and> callSid (fst (step e s)) = callSid s"
    if "conn_of e = Some i" for e
    using step_frame [OF that assms(2)] diff assms(4) by metis
  have local: "snd (step e t) = snd (step e s)
      \<and> heap (fst (step e t)) ! sess (conns s ! i) = heap (fst (step e s)) ! sess (conns s ! i)"
    if "conn_of e = Some i" and "i < length (conns t)" and "conns t ! i = conns s ! i"
      and "sess (conns s ! i) < length (heap t)"
      and "heap t ! sess (conns s ! i) = heap s ! sess (conns s ! i)" for e t
    using step_local [OF that(1) assms(2) that(2,3) inb that(4,5)] by simp
  show ?thesis
    using diff reg frame local by blast
qed

theorem distinct_calls_separate_sessions_witness:
  "sess (conns (fst (run [call_CA1, call_CA2] init)) ! 0)
     \<noteq> sess (conns (fst (run [call_CA1, call_CA2] init)) ! 1)
   \<and> sessions (fst (run [call_CA1, call_CA2] init)) (lit ''CA1'') = Some 0
   \<and> sess (conns (fst (run [call_CA1, call_CA2] init)) ! 1) = 1
   \<and> heap (fst (step (SocketMessage 0 (Inr (start_event ''SS1''))) (fst (run [call_CA1, call_CA2] init)))) ! 1
       = heap (fst (run [call_CA1, call_CA2] init)) ! 1"
proof -
  have "0 < length (conns (fst (run [call_CA1, call_CA2] init)))"
    and "1 < length (conns (fst (run [call_CA1, call_CA2] init)))"
    and "sessionId (conns (fst (run [call_CA1, call_CA2] init)) ! 0)
          \<noteq> sessionId (conns (fst (run [call_CA1, call_CA2] init)) ! 1)"
    and "sessions (fst (run [call_CA1, call_CA2] init)) (lit ''CA1'') = Some 0"
    and "sess (conns (fst (run [call_CA1, call_CA2] init)) ! 1) = 1"
    and "conn_of (SocketMessage 0 (Inr (start_event ''SS1''))) = Some 0"
    by (simp_all add: run_defs start_event_def call_CA1_def call_CA2_def)
  then show ?thesis
    using distinct_calls_separate_sessions [of "fst (run [call_CA1, call_CA2] init)" "[call_CA1, call_CA2]" 0 1]
    by metis
qed

section \<open>The extraction call\<close>

lemma vapi_on_message_no_extraction: "CallExtraction t \<notin> set (snd (vapi_on_message parsed session))"
  by (auto simp: vapi_on_message_def vapi_message_body_def catching_def bind_err_def
      split: sum.splits)

lemma socket_on_message_no_extraction:
  "CallExtraction t \<notin> set (snd (socket_on_message parsed rs session))"
  by (auto simp: socket_on_message_def socket_message_body_def catching_def bind_err_def
      split: sum.splits)

lemma step_no_extraction: "(i, CallExtraction t) \<notin> set (snd (step e s))"
proof (cases e)
  case (VapiMessage j parsed)
  then show ?thesis
    using vapi_on_message_no_extraction by (auto simp: step_def snd_on_session)
next
  case (SocketMessage j parsed)
  then show ?thesis
    using socket_on_message_no_extraction by (auto simp: step_def snd_on_session)
qed (auto simp: step_def vapi_on_open_def socket_on_close_def Let_def)

lemma run_no_extraction: "(i, CallExtraction t) \<notin> set (snd (run es s))"
proof (induction es arbitrary: s)
  case Nil
  show ?case by simp
next
  case (Cons e es)
  have "snd (run (e # es) s) = snd (step e s) @ snd (run es (fst (step e s)))"
    by (simp add: Let_def split: prod.splits)
  then show ?case using step_no_extraction Cons.IH by simp
qed

text \<open>
  Claim C1: when the downstream connection closes, the cleaned transcript is handed to
  the extraction collaborator. The close handler cleans the transcript, stores it back
  into the session and deletes the registry entry, and that is all: the source defines
  \<open>processTranscriptAndSend\<close> (``Main function to extract and send customer details'')
  and never calls it. The evaluation below runs one whole call, from the connection to
  the close: the only effects are the configuration frame and \<open>vapiWs.close()\<close>, the
  transcript left in the session is the cleaned one, and the registry entry is gone.
  The last conjunct says the same of every run: no event ever makes a handler call the
  extraction.
\<close>

theorem close_does_not_reach_extraction:
  "snd (run [call_CA1, VapiOpen 0, VapiMessage 0 (Inr (transcript_event '' hello '')), SocketClose 0] init)
     = [(0, SendUpstream (stringify sessionUpdate)), (0, CloseUpstream)]
   \<and> transcript (heap (fst (run [call_CA1, VapiOpen 0,
          VapiMessage 0 (Inr (transcript_event '' hello '')), SocketClose 0] init)) ! 0)
     = user_prefix @ lit ''hello''
   \<and> sessions (fst (run [call_CA1, VapiOpen 0,
          VapiMessage 0 (Inr (transcript_event '' hello '')), SocketClose 0] init)) (lit ''CA1'') = None
   \<and> (i, CallExtraction t) \<notin> set (snd (run es s))"
proof (intro conjI)
  show "(i, CallExtraction t) \<notin> set (snd (run es s))"
    by (rule run_no_extraction)
qed (simp_all add: run_defs transcript_event_def call_CA1_def trim_def isWhiteSpace_def user_prefix_def cleanTranscript_def
        split_def LF_def sentinel_def)

end
